theory Spec2Isabelle
  imports Main "HOL-Library.Word"
begin

unbundle bit_operations_syntax

section \<open>Helpers of pmath.hpp\<close>

text \<open>
  Modelled from the spec: \<^verbatim>\<open>inBetween(min, x, max)\<close> of pmath.hpp is not among the
  sources. The spec calls its effect "clamped to [min, max]": a value below the lower
  limit becomes the lower limit, a value above the upper limit becomes the upper limit,
  any other value is returned as it is.
\<close>

definition inBetween :: "'a::linorder \<Rightarrow> 'a \<Rightarrow> 'a \<Rightarrow> 'a" where
  "inBetween lo x hi = (if x < lo then lo else if hi < x then hi else x)"

text \<open>
  Modelled from the spec: \<^verbatim>\<open>floorPow2(x)\<close> of pmath.hpp is not among the sources.
  The spec calls its effect "rounded down to power of two": the highest power of two
  that does not exceed \<open>x\<close>. It is computed here by halving; 0 is returned for 0, where
  no such power exists.
\<close>

function floorPow2 :: "nat \<Rightarrow> nat" where
  "floorPow2 x = (if x < 2 then x else 2 * floorPow2 (x div 2))"
  by pat_completeness auto
termination
  by (relation "measure id") auto

declare floorPow2.simps [simp del]

text \<open>
  The instance of \<^verbatim>\<open>floorPow2\<close> at type \<^verbatim>\<open>int\<close>, used by \<^verbatim>\<open>set_sieve_size\<close>. Its
  argument there is the result of a clamp to [8, 4096], hence positive.
\<close>

definition floorPow2_int :: "int \<Rightarrow> int" where
  "floorPow2_int x = int (floorPow2 (nat x))"

section \<open>CpuInfo: the cache data read by the API\<close>

text \<open>
  The class of CpuInfo.cpp. \<^verbatim>\<open>size_t\<close> fields are natural numbers: the code only
  assigns, compares and divides them. The two arrays have four entries, index 0 unused.
  The members carry the names of the source without the trailing underscore.
\<close>

record CpuInfo =
  cpuName :: string
  cpuCores :: nat
  cpuThreads :: nat
  threadsPerCore :: nat
  cacheSizes :: "nat list"
  cacheSharing :: "nat list"
  error :: string

definition l1CacheSize :: "CpuInfo \<Rightarrow> nat" where
  "l1CacheSize c = cacheSizes c ! 1"

definition l2CacheSize :: "CpuInfo \<Rightarrow> nat" where
  "l2CacheSize c = cacheSizes c ! 2"

definition getError :: "CpuInfo \<Rightarrow> string" where
  "getError c = error c"

definition hasL1Cache :: "CpuInfo \<Rightarrow> bool" where
  "hasL1Cache c = (2 ^ 12 \<le> cacheSizes c ! 1 \<and> cacheSizes c ! 1 \<le> 2 ^ 30)"

definition hasL2Cache :: "CpuInfo \<Rightarrow> bool" where
  "hasL2Cache c = (2 ^ 12 \<le> cacheSizes c ! 2 \<and> cacheSizes c ! 2 \<le> 2 ^ 40)"

definition hasCpuThreads :: "CpuInfo \<Rightarrow> bool" where
  "hasCpuThreads c = (1 \<le> cpuThreads c \<and> cpuThreads c \<le> 2 ^ 20)"

definition hasThreadsPerCore :: "CpuInfo \<Rightarrow> bool" where
  "hasThreadsPerCore c = (1 \<le> threadsPerCore c \<and> threadsPerCore c \<le> 2 ^ 10)"

section \<open>CpuInfo: construction\<close>

text \<open>
  An exception in flight: one derived from \<^verbatim>\<open>std::exception\<close>, with the text returned by
  \<^verbatim>\<open>what()\<close>, or any other thrown value. The handler \<^verbatim>\<open>catch (exception& e)\<close> of
  the constructor matches the first kind only.
\<close>

datatype cpp_exception =
  std_exception string
  | other_exception

text \<open>
  What the helpers of \<^verbatim>\<open>init()\<close> (the variant for Linux and all unknown systems) find
  in the files of the operating system. Each call either returns its value or throws:
  the conversions are done by \<^verbatim>\<open>std::stoul\<close> and \<^verbatim>\<open>vector::at\<close>, which throw
  \<^verbatim>\<open>std::invalid_argument\<close> and \<^verbatim>\<open>std::out_of_range\<close>; \<open>Inl\<close> carries the text of such an
  exception. The arguments of \<open>level_probe\<close>, \<open>type_probe\<close>, \<open>size_probe\<close> and
  \<open>shared_probe\<close> are the cache index 0..3 of the path
  \<^verbatim>\<open>/sys/devices/system/cpu/cpu0/cache/index<i>\<close>.
\<close>

record probes =
  name_probe :: string
  online_probe :: "string + nat"
  siblings_probe :: "string + nat"
  level_probe :: "nat \<Rightarrow> string + nat"
  type_probe :: "nat \<Rightarrow> string"
  size_probe :: "nat \<Rightarrow> string + nat"
  shared_probe :: "nat \<Rightarrow> string + nat"

text \<open>
  The body of the loop \<^verbatim>\<open>for (size_t i = 0; i <= 3; i++)\<close> of \<^verbatim>\<open>init()\<close>. The result
  is the exception thrown, if any, and the object as the statements completed so far
  have left it.
\<close>

definition cache_index :: "probes \<Rightarrow> nat \<Rightarrow> CpuInfo \<Rightarrow> cpp_exception option \<times> CpuInfo" where
  "cache_index pr i c =
     (case level_probe pr i of
        Inl m \<Rightarrow> (Some (std_exception m), c)
      | Inr level \<Rightarrow>
          if 1 \<le> level \<and> level \<le> 3
          then
            let cacheType = type_probe pr i
            in if cacheType = ''Data'' \<or> cacheType = ''Unified''
               then
                 (case size_probe pr i of
                    Inl m \<Rightarrow> (Some (std_exception m), c)
                  | Inr sz \<Rightarrow>
                      let c1 = c\<lparr>cacheSizes := (cacheSizes c)[level := sz]\<rparr>
                      in (case shared_probe pr i of
                            Inl m \<Rightarrow> (Some (std_exception m), c1)
                          | Inr sh \<Rightarrow>
                              (None, c1\<lparr>cacheSharing := (cacheSharing c1)[level := sh]\<rparr>)))
               else (None, c)
          else (None, c))"

fun cache_loop :: "probes \<Rightarrow> nat list \<Rightarrow> CpuInfo \<Rightarrow> cpp_exception option \<times> CpuInfo" where
  "cache_loop pr [] c = (None, c)"
| "cache_loop pr (i # is) c =
     (case cache_index pr i c of
        (Some e, c1) \<Rightarrow> (Some e, c1)
      | (None, c1) \<Rightarrow> cache_loop pr is c1)"

text \<open>\<^verbatim>\<open>CpuInfo::init()\<close>, the variant for Linux and all unknown operating systems.\<close>

definition init :: "probes \<Rightarrow> CpuInfo \<Rightarrow> cpp_exception option \<times> CpuInfo" where
  "init pr c =
     (let c1 = c\<lparr>cpuName := name_probe pr\<rparr>
      in case online_probe pr of
           Inl m \<Rightarrow> (Some (std_exception m), c1)
         | Inr threads \<Rightarrow>
             let c2 = c1\<lparr>cpuThreads := threads\<rparr>
             in (case siblings_probe pr of
                   Inl m \<Rightarrow> (Some (std_exception m), c2)
                 | Inr siblings \<Rightarrow>
                     let c3 = c2\<lparr>threadsPerCore := siblings\<rparr>;
                         c4 = (if hasCpuThreads c3 \<and> hasThreadsPerCore c3
                               then c3\<lparr>cpuCores := cpuThreads c3 div threadsPerCore c3\<rparr>
                               else c3)
                     in cache_loop pr [0, 1, 2, 3] c4))"

text \<open>The object after the member initializers of the constructor.\<close>

definition CpuInfo_zero :: CpuInfo where
  "CpuInfo_zero =
     \<lparr>cpuName = [], cpuCores = 0, cpuThreads = 0, threadsPerCore = 0,
      cacheSizes = [0, 0, 0, 0], cacheSharing = [0, 0, 0, 0], error = []\<rparr>"

text \<open>
  The constructor \<^verbatim>\<open>CpuInfo::CpuInfo()\<close>: \<open>Inr\<close> is the constructed object, \<open>Inl\<close> an
  exception that leaves the constructor.
\<close>

definition CpuInfo_new :: "probes \<Rightarrow> cpp_exception + CpuInfo" where
  "CpuInfo_new pr =
     (case init pr CpuInfo_zero of
        (None, c) \<Rightarrow> Inr c
      | (Some (std_exception m), c) \<Rightarrow> Inr (c\<lparr>error := m\<rparr>)
      | (Some other_exception, c) \<Rightarrow> Inl other_exception)"

text \<open>
  Every numeric member is zero unless a probe that completed has written it: a
  non-zero cache size or sharing count at level \<open>k\<close> is the value that the probe of some
  cache index of level \<open>k\<close> returned, a non-zero thread count is what its probe
  returned, and a non-zero core count is the quotient of the two thread counts.
\<close>

definition fields_probed_or_zero :: "probes \<Rightarrow> CpuInfo \<Rightarrow> bool" where
  "fields_probed_or_zero pr c \<longleftrightarrow>
     length (cacheSizes c) = 4 \<and> length (cacheSharing c) = 4
     \<and> (\<forall>k < 4. cacheSizes c ! k \<noteq> 0 \<longrightarrow>
          (\<exists>i \<in> {0, 1, 2, 3}. level_probe pr i = Inr k \<and> size_probe pr i = Inr (cacheSizes c ! k)))
     \<and> (\<forall>k < 4. cacheSharing c ! k \<noteq> 0 \<longrightarrow>
          (\<exists>i \<in> {0, 1, 2, 3}. level_probe pr i = Inr k \<and> shared_probe pr i = Inr (cacheSharing c ! k)))
     \<and> (cpuThreads c \<noteq> 0 \<longrightarrow> online_probe pr = Inr (cpuThreads c))
     \<and> (threadsPerCore c \<noteq> 0 \<longrightarrow>
          siblings_probe pr = Inr (threadsPerCore c) \<and> (\<exists>t. online_probe pr = Inr t))
     \<and> (cpuCores c \<noteq> 0 \<longrightarrow>
          (\<exists>t s. online_probe pr = Inr t \<and> siblings_probe pr = Inr s \<and> cpuCores c = t div s))"

section \<open>api.cpp: sieve size and thread count\<close>

text \<open>
  The two file-local globals of api.cpp, both initially 0 ("not set by the user").
\<close>

record api_state =
  sieve_size :: int
  num_threads :: int

definition api_init :: api_state where
  "api_init = \<lparr>sieve_size = 0, num_threads = 0\<rparr>"

text \<open>
  \<^verbatim>\<open>ParallelSieve::getMaxThreads()\<close> is not among the sources; its value is the
  parameter \<open>maxThreads\<close>.
\<close>

definition get_num_threads :: "int \<Rightarrow> api_state \<Rightarrow> int" where
  "get_num_threads maxThreads st =
     (if num_threads st \<noteq> 0 then num_threads st else maxThreads)"

definition set_num_threads :: "int \<Rightarrow> int \<Rightarrow> api_state \<Rightarrow> api_state" where
  "set_num_threads maxThreads threads st =
     st\<lparr>num_threads := inBetween 1 threads maxThreads\<rparr>"

definition set_sieve_size :: "int \<Rightarrow> api_state \<Rightarrow> api_state" where
  "set_sieve_size kilobytes st =
     (let st1 = st\<lparr>sieve_size := inBetween 8 kilobytes 4096\<rparr>
      in st1\<lparr>sieve_size := floorPow2_int (sieve_size st1)\<rparr>)"

text \<open>
  \<^verbatim>\<open>get_sieve_size(uint64_t stop)\<close>. The accessors \<^verbatim>\<open>cpuInfo.privateL2Cache()\<close> and
  \<^verbatim>\<open>cpuInfo.l2Threads()\<close> and the predicate \<^verbatim>\<open>EratBig::fitsIntoCache\<close> are not among
  the sources: their values are the parameters \<open>privateL2Cache\<close>, \<open>l2Threads\<close> and
  \<open>fitsIntoCache\<close>. The locals of type \<^verbatim>\<open>size_t\<close> are natural numbers.
\<close>

definition get_sieve_size_stop ::
  "CpuInfo \<Rightarrow> bool \<Rightarrow> nat \<Rightarrow> (64 word \<Rightarrow> nat \<Rightarrow> bool) \<Rightarrow> api_state \<Rightarrow> 64 word \<Rightarrow> int" where
  "get_sieve_size_stop cpuInfo privateL2Cache l2Threads fitsIntoCache st stop =
     (if sieve_size st \<noteq> 0 then sieve_size st
      else
        let l1 = l1CacheSize cpuInfo div 1024;
            l2 = l2CacheSize cpuInfo div 1024
        in if hasL2Cache cpuInfo \<and> privateL2Cache \<and> l1 < l2
           then
             let size1 = floorPow2 (inBetween 32 (l2 div inBetween 1 l2Threads 4) 4096)
             in if fitsIntoCache stop (size1 * 1024) then int size1
                else int (floorPow2 (inBetween 32 l2 4096))
           else
             let l1' = (if \<not> hasL1Cache cpuInfo then 32 else l1)
             in int (floorPow2 (inBetween 8 l1' 4096)))"

text \<open>\<^verbatim>\<open>get_sieve_size()\<close> without argument asks for stop 0.\<close>

definition get_sieve_size ::
  "CpuInfo \<Rightarrow> bool \<Rightarrow> nat \<Rightarrow> (64 word \<Rightarrow> nat \<Rightarrow> bool) \<Rightarrow> api_state \<Rightarrow> int" where
  "get_sieve_size cpuInfo privateL2Cache l2Threads fitsIntoCache st =
     get_sieve_size_stop cpuInfo privateL2Cache l2Threads fitsIntoCache st 0"

section \<open>PrimeSieve.cpp: the data\<close>

text \<open>
  The exceptions thrown by PrimeSieve.cpp, each with its message, and the one undefined
  behaviour its code could reach: reading \<^verbatim>\<open>primes16Bit[i]\<close> past the end of the vector.
\<close>

datatype error =
  invalid_argument string
  | out_of_range string
  | vector_index_past_end

text \<open>
  The flag constants of the absent PrimeSieve.h. The code shifts \<^verbatim>\<open>COUNT_PRIMES\<close> and
  \<^verbatim>\<open>PRINT_PRIMES\<close> by the type index and tests \<^verbatim>\<open>CALLBACK_PRIMES\<close> as it is; their
  values are parameters.
\<close>

record flag_bits =
  COUNT_PRIMES :: "32 word"
  PRINT_PRIMES :: "32 word"
  CALLBACK_PRIMES :: "32 word"

text \<open>
  The members of class PrimeSieve that sieving reads and writes (names without the
  trailing underscore). Standard output is the list of lines written by
  \<^verbatim>\<open>std::cout << prime << std::endl\<close>; the calls of the callback are the list of its
  first arguments, in order. The clock and the floating-point progress display
  (\<^verbatim>\<open>timeElapsed_\<close>, \<^verbatim>\<open>status_\<close>, \<^verbatim>\<open>segments_\<close>, \<^verbatim>\<open>doStatus\<close>) are left out.
\<close>

record PrimeSieve =
  startNumber :: "64 word"
  stopNumber :: "64 word"
  sieveSize :: "32 word"
  flags :: "32 word"
  counts :: "64 word list"
  printed :: "string list"
  callback_args :: "64 word list"

text \<open>
  Modelled from the spec: \<^verbatim>\<open>COUNTS_SIZE\<close> of the absent PrimeSieve.h. The spec's counts
  vector is "a fixed-size vector of seven 64-bit counters, indexed 0..6".
\<close>

definition COUNTS_SIZE :: nat where
  "COUNTS_SIZE = 7"

text \<open>
  Modelled from the spec: \<^verbatim>\<open>isPowerOf2(x)\<close> of the absent pmath.h, which the spec's
  "non-power-of-two" refers to. A power of two is a positive number that rounding down
  to a power of two leaves unchanged.
\<close>

definition isPowerOf2 :: "32 word \<Rightarrow> bool" where
  "isPowerOf2 x = (x \<noteq> 0 \<and> floorPow2 (unat x) = unat x)"

text \<open>
  Modelled from the spec: the macro \<^verbatim>\<open>U32SQRT(x)\<close> of the absent pmath.h. The spec
  writes \<open>\<lfloor>\<surd>x\<rfloor>\<close>: the integer square root, computed here digit by digit in base 4.
\<close>

function U32SQRT :: "nat \<Rightarrow> nat" where
  "U32SQRT x =
     (if x < 4 then (if x = 0 then 0 else 1)
      else let r = 2 * U32SQRT (x div 4)
           in if (r + 1) * (r + 1) \<le> x then r + 1 else r)"
  by pat_completeness auto
termination
  by (relation "measure id") auto

declare U32SQRT.simps [simp del]

section \<open>PrimeSieve.cpp: setters\<close>

text \<open>The limit \<^verbatim>\<open>UINT64_MAX - UINT32_MAX * UINT64_C(10)\<close>, in 64-bit arithmetic.\<close>

definition UINT64_MAX :: "64 word" where
  "UINT64_MAX = 18446744073709551615"

definition UINT32_MAX :: "32 word" where
  "UINT32_MAX = 4294967295"

definition range_limit :: "64 word" where
  "range_limit = UINT64_MAX - ucast UINT32_MAX * 10"

definition setStartNumber :: "64 word \<Rightarrow> PrimeSieve \<Rightarrow> error + PrimeSieve" where
  "setStartNumber start ps =
     (if range_limit \<le> start
      then Inl (invalid_argument ''START must be < (2^64-1) - (2^32-1) * 10'')
      else Inr (ps\<lparr>startNumber := start\<rparr>))"

definition setStopNumber :: "64 word \<Rightarrow> PrimeSieve \<Rightarrow> error + PrimeSieve" where
  "setStopNumber stop ps =
     (if range_limit \<le> stop
      then Inl (invalid_argument ''STOP must be < (2^64-1) - (2^32-1) * 10'')
      else Inr (ps\<lparr>stopNumber := stop\<rparr>))"

definition setSieveSize :: "32 word \<Rightarrow> PrimeSieve \<Rightarrow> error + PrimeSieve" where
  "setSieveSize sz ps =
     (if sz < 1 \<or> 8192 < sz
      then Inl (invalid_argument ''sieve size must be >= 1 and <= 8192 KiloBytes'')
      else if \<not> isPowerOf2 sz
      then Inl (invalid_argument ''sieve size must be a power of 2'')
      else Inr (ps\<lparr>sieveSize := sz * 1024\<rparr>))"

definition setFlags :: "32 word \<Rightarrow> PrimeSieve \<Rightarrow> PrimeSieve" where
  "setFlags fl ps = ps\<lparr>flags := fl\<rparr>"

definition reset :: "PrimeSieve \<Rightarrow> PrimeSieve" where
  "reset ps = ps\<lparr>counts := replicate COUNTS_SIZE 0\<rparr>"

text \<open>\<^verbatim>\<open>getCounts(type)\<close>, which checks its index.\<close>

definition getCounts :: "32 word \<Rightarrow> PrimeSieve \<Rightarrow> error + 64 word" where
  "getCounts type ps =
     (if COUNTS_SIZE \<le> unat type
      then Inl (out_of_range ''getCounts(uint32_t) type out of range'')
      else Inr (counts ps ! unat type))"

section \<open>PrimeSieve.cpp: the small primes\<close>

text \<open>
  The argument of the callback, \<^verbatim>\<open>prime[0]-'0'\<close>: the first character of the string
  (the terminating NUL of an empty string) minus the character \<^verbatim>\<open>'0'\<close> (48), computed as
  \<^verbatim>\<open>int\<close> and converted to \<^verbatim>\<open>uint64_t\<close>.
\<close>

definition first_char_minus_0 :: "string \<Rightarrow> 64 word" where
  "first_char_minus_0 prime =
     word_of_int ((case prime of [] \<Rightarrow> 0 | c # cs \<Rightarrow> of_char c) - 48)"

definition doSmallPrime ::
  "flag_bits \<Rightarrow> 32 word \<Rightarrow> 32 word \<Rightarrow> 32 word \<Rightarrow> string \<Rightarrow> PrimeSieve \<Rightarrow> PrimeSieve" where
  "doSmallPrime fb low high type prime ps =
     (if startNumber ps \<le> ucast low \<and> ucast high \<le> stopNumber ps
      then
        let ps1 = (if flags ps AND push_bit (unat type) (COUNT_PRIMES fb) \<noteq> 0
                   then ps\<lparr>counts := (counts ps)[unat type := counts ps ! unat type + 1]\<rparr>
                   else ps);
            ps2 = (if flags ps1 AND push_bit (unat type) (PRINT_PRIMES fb) \<noteq> 0
                   then ps1\<lparr>printed := printed ps1 @ [prime]\<rparr>
                   else ps1);
            ps3 = (if flags ps2 AND CALLBACK_PRIMES fb \<noteq> 0
                   then ps2\<lparr>callback_args := callback_args ps2 @ [first_char_minus_0 prime]\<rparr>
                   else ps2)
        in ps3
      else ps)"

text \<open>The eight calls at the head of \<^verbatim>\<open>sieve()\<close>, guarded by \<^verbatim>\<open>startNumber_ <= 5\<close>.\<close>

definition small_primes :: "flag_bits \<Rightarrow> PrimeSieve \<Rightarrow> PrimeSieve" where
  "small_primes fb ps =
     (if startNumber ps \<le> 5
      then
        let ps = doSmallPrime fb 2 2 0 ''2'' ps;
            ps = doSmallPrime fb 3 3 0 ''3'' ps;
            ps = doSmallPrime fb 5 5 0 ''5'' ps;
            ps = doSmallPrime fb 3 5 1 ''(3, 5)'' ps;
            ps = doSmallPrime fb 5 7 1 ''(5, 7)'' ps;
            ps = doSmallPrime fb 5 11 2 ''(5, 7, 11)'' ps;
            ps = doSmallPrime fb 5 13 3 ''(5, 7, 11, 13)'' ps;
            ps = doSmallPrime fb 5 17 4 ''(5, 7, 11, 13, 17)'' ps
        in ps
      else ps)"

section \<open>PrimeSieve.cpp: trial division for the first sieving primes\<close>

text \<open>
  The inner loop
  \<^verbatim>\<open>for (; primes16Bit[i] <= s && (n % primes16Bit[i]) != 0; i++);\<close>
  started at index \<open>i\<close>. It returns the index at which the loop stops, or \<open>None\<close> when it
  reads past the last element of the vector.
\<close>

function scan :: "nat list \<Rightarrow> nat \<Rightarrow> nat \<Rightarrow> nat \<Rightarrow> nat option" where
  "scan primes16Bit s n i =
     (if i < length primes16Bit
      then (if primes16Bit ! i \<le> s \<and> n mod primes16Bit ! i \<noteq> 0
            then scan primes16Bit s n (Suc i)
            else Some i)
      else None)"
  by pat_completeness auto
termination
  by (relation "measure (\<lambda>(ps, s, n, i). length ps - i)") auto

declare scan.simps [simp del]

text \<open>
  The body of the outer loop for the candidate \<open>n\<close>. The state is the vector
  \<^verbatim>\<open>primes16Bit\<close> and the list of the numbers handed to
  \<^verbatim>\<open>primeNumberGenerator.sieve(n)\<close>; \<open>eliminateUpTo\<close> is the value of the absent
  \<^verbatim>\<open>resetSieve.getEliminateUpTo()\<close>. The result is \<open>None\<close> when the inner loop reads past
  the end of the vector.
\<close>

definition trial_division_body ::
  "nat \<Rightarrow> nat \<Rightarrow> nat \<Rightarrow> nat list \<Rightarrow> nat list \<Rightarrow> (nat list \<times> nat list) option" where
  "trial_division_body keep eliminateUpTo n primes16Bit sieved =
     (case scan primes16Bit (U32SQRT n) n 0 of
        None \<Rightarrow> None
      | Some i \<Rightarrow>
          if U32SQRT n < primes16Bit ! i
          then Some (if primes16Bit ! i \<le> keep then primes16Bit @ [n] else primes16Bit,
                     if eliminateUpTo < n then sieved @ [n] else sieved)
          else Some (primes16Bit, sieved))"

text \<open>
  The outer loop \<^verbatim>\<open>for (uint32_t n = 5; n <= stop; n += 2)\<close>, from the current \<open>n\<close>.
  \<open>stop\<close> is a square root of a 32-bit number, below \<open>2 ^ 16\<close>, so that \<^verbatim>\<open>n += 2\<close> does
  not wrap around in 32 bits.
\<close>

function trial_division ::
  "nat \<Rightarrow> nat \<Rightarrow> nat \<Rightarrow> nat \<Rightarrow> nat list \<Rightarrow> nat list \<Rightarrow> (nat list \<times> nat list) option" where
  "trial_division stop keep eliminateUpTo n primes16Bit sieved =
     (if n \<le> stop
      then
        (case trial_division_body keep eliminateUpTo n primes16Bit sieved of
           None \<Rightarrow> None
         | Some (primes16Bit', sieved') \<Rightarrow>
             trial_division stop keep eliminateUpTo (n + 2) primes16Bit' sieved')
      else Some (primes16Bit, sieved))"
  by pat_completeness auto
termination
  by (relation "measure (\<lambda>(stop, keep, e, n, ps, sv). Suc stop - n)") auto

declare trial_division.simps [simp del]

text \<open>
  The states in which the outer loop tests its condition: the initial one, and the one
  after the body has run for a candidate \<open>n \<le> stop\<close>.
\<close>

inductive loop_head :: "nat \<Rightarrow> nat \<Rightarrow> nat \<Rightarrow> nat \<Rightarrow> nat list \<Rightarrow> nat list \<Rightarrow> bool"
  for stop keep eliminateUpTo where
  start: "loop_head stop keep eliminateUpTo 5 [3] []"
| step: "loop_head stop keep eliminateUpTo n primes16Bit sieved \<Longrightarrow> n \<le> stop \<Longrightarrow>
     trial_division_body keep eliminateUpTo n primes16Bit sieved = Some (primes16Bit', sieved') \<Longrightarrow>
     loop_head stop keep eliminateUpTo (n + 2) primes16Bit' sieved'"

text \<open>
  The block of \<^verbatim>\<open>sieve()\<close> that declares \<^verbatim>\<open>primes16Bit\<close>, computes \<^verbatim>\<open>stop\<close> and \<^verbatim>\<open>keep\<close>
  and runs the loop, given the stop number of the generator.
\<close>

definition generate_sieving_primes :: "nat \<Rightarrow> nat \<Rightarrow> (nat list \<times> nat list) option" where
  "generate_sieving_primes generatorStop eliminateUpTo =
     (let stop = U32SQRT generatorStop;
          keep = U32SQRT stop
      in trial_division stop keep eliminateUpTo 5 [3] [])"

section \<open>PrimeSieve.cpp: sieve\<close>

text \<open>
  The classes ResetSieve, PrimeNumberFinder and PrimeNumberGenerator (the segmented
  sieve) are not among the sources. What \<^verbatim>\<open>sieve()\<close> needs of them is a parameter:
  \<open>eliminateUpTo\<close> is \<^verbatim>\<open>resetSieve.getEliminateUpTo()\<close>, and \<open>finder_run\<close> gives what the
  finder has counted, printed and passed to the callback when \<^verbatim>\<open>finish()\<close> returns, as a
  function of the arguments of its constructor (start, stop, sieve size, flags) and of
  the numbers handed to \<^verbatim>\<open>primeNumberGenerator.sieve\<close>.
\<close>

record finder_result =
  f_counts :: "64 word list"
  f_printed :: "string list"
  f_callback_args :: "64 word list"

record engine =
  eliminateUpTo :: "32 word"
  finder_run :: "64 word \<Rightarrow> 64 word \<Rightarrow> 32 word \<Rightarrow> 32 word \<Rightarrow> nat list \<Rightarrow> finder_result"

text \<open>
  Modelled from the spec: \<^verbatim>\<open>primeNumberGenerator.getStopNumber()\<close> of the absent class
  PrimeNumberGenerator. The spec's generator "produces every prime p with p \<open>\<le> \<surd>stop\<close>":
  its stop number is the integer square root of the stop number \<open>stop\<close> of the sieve.
\<close>

definition generator_getStopNumber :: "64 word \<Rightarrow> nat" where
  "generator_getStopNumber stop = U32SQRT (unat stop)"

text \<open>
  The block of \<^verbatim>\<open>sieve()\<close> guarded by
  \<^verbatim>\<open>U32SQRT(stopNumber_) > resetSieve.getEliminateUpTo()\<close>: the numbers it hands to
  \<^verbatim>\<open>primeNumberGenerator.sieve(n)\<close>, none when the guard fails; \<open>None\<close> when the trial
  division reads past the end of its vector. \<open>stop\<close> is \<^verbatim>\<open>stopNumber_\<close>.
\<close>

definition sieving_numbers :: "engine \<Rightarrow> 64 word \<Rightarrow> nat list option" where
  "sieving_numbers en stop =
     (if unat (eliminateUpTo en) < U32SQRT (unat stop)
      then map_option snd
             (generate_sieving_primes (generator_getStopNumber stop) (unat (eliminateUpTo en)))
      else Some [])"

definition sieve :: "flag_bits \<Rightarrow> engine \<Rightarrow> PrimeSieve \<Rightarrow> error + PrimeSieve" where
  "sieve fb en ps0 =
     (if stopNumber ps0 < startNumber ps0
      then Inl (invalid_argument ''STOP must be >= START'')
      else
        let ps = small_primes fb (reset ps0)
        in if 7 \<le> stopNumber ps
           then
             let lo = (if 7 < startNumber ps then startNumber ps else 7)
             in case sieving_numbers en (stopNumber ps) of
                  None \<Rightarrow> Inl vector_index_past_end
                | Some ns \<Rightarrow>
                    let r = finder_run en lo (stopNumber ps) (sieveSize ps) (flags ps) ns
                    in Inr (ps\<lparr>counts := map (\<lambda>i. counts ps ! i + f_counts r ! i) [0..<COUNTS_SIZE],
                               printed := printed ps @ f_printed r,
                               callback_args := callback_args ps @ f_callback_args r\<rparr>)
           else Inr ps)"

text \<open>
  \<^verbatim>\<open>getPrimeCount(startNumber, stopNumber)\<close> and \<^verbatim>\<open>generatePrimes\<close>; an exception of a
  setter or of \<^verbatim>\<open>sieve()\<close> ends the call. \<open>callback_null\<close> tells whether the function
  pointer passed to \<^verbatim>\<open>generatePrimes\<close> is \<^verbatim>\<open>NULL\<close>.
\<close>

definition getPrimeCount ::
  "flag_bits \<Rightarrow> engine \<Rightarrow> 64 word \<Rightarrow> 64 word \<Rightarrow> PrimeSieve \<Rightarrow> error + (64 word \<times> PrimeSieve)" where
  "getPrimeCount fb en start stop ps =
     (case setStartNumber start ps of
        Inl e \<Rightarrow> Inl e
      | Inr ps1 \<Rightarrow>
          (case setStopNumber stop ps1 of
             Inl e \<Rightarrow> Inl e
           | Inr ps2 \<Rightarrow>
               (case sieve fb en (setFlags (COUNT_PRIMES fb) ps2) of
                  Inl e \<Rightarrow> Inl e
                | Inr ps3 \<Rightarrow> Inr (counts ps3 ! 0, ps3))))"

definition generatePrimes ::
  "flag_bits \<Rightarrow> engine \<Rightarrow> 64 word \<Rightarrow> 64 word \<Rightarrow> bool \<Rightarrow> PrimeSieve \<Rightarrow> error + PrimeSieve" where
  "generatePrimes fb en start stop callback_null ps =
     (if callback_null then Inl (invalid_argument ''callback must not be NULL'')
      else
        case setStartNumber start ps of
          Inl e \<Rightarrow> Inl e
        | Inr ps1 \<Rightarrow>
            (case setStopNumber stop ps1 of
               Inl e \<Rightarrow> Inl e
             | Inr ps2 \<Rightarrow> sieve fb en (setFlags (CALLBACK_PRIMES fb) ps2)))"

text \<open>
  The arguments of the eight \<^verbatim>\<open>doSmallPrime\<close> calls as a list, in the order of the
  calls: least element, greatest element, type index and text of each entry.
\<close>

definition small_prime_list :: "(32 word \<times> 32 word \<times> 32 word \<times> string) list" where
  "small_prime_list =
     [(2, 2, 0, ''2''), (3, 3, 0, ''3''), (5, 5, 0, ''5''),
      (3, 5, 1, ''(3, 5)''), (5, 7, 1, ''(5, 7)''), (5, 11, 2, ''(5, 7, 11)''),
      (5, 13, 3, ''(5, 7, 11, 13)''), (5, 17, 4, ''(5, 7, 11, 13, 17)'')]"

text \<open>
  Whether an entry lies in the interval from \<open>start\<close> to \<open>stop\<close>, as \<^verbatim>\<open>doSmallPrime\<close>
  tests it against \<^verbatim>\<open>startNumber_\<close> and \<^verbatim>\<open>stopNumber_\<close>.
\<close>

definition in_interval ::
  "64 word \<Rightarrow> 64 word \<Rightarrow> 32 word \<times> 32 word \<times> 32 word \<times> string \<Rightarrow> bool" where
  "in_interval start stop e =
     (case e of (low, high, type, prime) \<Rightarrow> start \<le> ucast low \<and> ucast high \<le> stop)"

section \<open>Prime numbers\<close>

text \<open>
  The notion the claims are about: a prime is a number above 1 without a divisor
  strictly between 1 and itself.
\<close>

definition is_prime :: "nat \<Rightarrow> bool" where
  "is_prime n = (1 < n \<and> (\<forall>d \<in> {2..<n}. \<not> d dvd n))"

text \<open>
  Trial division up to the square root, used to decide primality of concrete numbers:
  \<open>no_factor n d\<close> holds when no \<open>k \<ge> d\<close> with \<open>k * k \<le> n\<close> divides \<open>n\<close>.
\<close>

function no_factor :: "nat \<Rightarrow> nat \<Rightarrow> bool" where
  "no_factor n d =
     (if n < d * d then True
      else if d dvd n then False
      else no_factor n (d + 1))"
  by pat_completeness auto
termination
proof (relation "measure (\<lambda>(n, d). Suc n - d)")
  show "wf (measure (\<lambda>(n, d). Suc n - d))" by simp
next
  fix n d :: nat
  assume a: "\<not> n < d * d" and b: "\<not> d dvd n"
  have "d \<le> n"
  proof (cases "d = 0")
    case True
    then show ?thesis by simp
  next
    case False
    then have "d \<le> d * d" by (cases d) simp_all
    with a show ?thesis by linarith
  qed
  then show "((n, d + 1), (n, d)) \<in> measure (\<lambda>(n, d). Suc n - d)" by simp
qed

declare no_factor.simps [simp del]

text \<open>
  The invariant of the trial-division loop at its head, with \<open>K\<close> the value of \<^verbatim>\<open>keep\<close>:
  \<open>n\<close> is odd, the vector is ascending, starts from 3 and holds only primes below \<open>n\<close>,
  and it holds every prime \<open>q < n\<close> for which some smaller prime \<open>r \<le> K\<close> exceeds
  the square root of \<open>q\<close>.
\<close>

definition td_inv :: "nat \<Rightarrow> nat \<Rightarrow> nat list \<Rightarrow> bool" where
  "td_inv K n ps \<longleftrightarrow>
     odd n \<and> 5 \<le> n \<and> sorted ps \<and> 3 \<in> set ps
     \<and> (\<forall>p \<in> set ps. is_prime p \<and> 3 \<le> p \<and> p < n)
     \<and> (\<forall>q. is_prime q \<and> 5 \<le> q \<and> q < n
            \<and> (\<exists>r. is_prime r \<and> 3 \<le> r \<and> r < q \<and> U32SQRT q < r \<and> r \<le> K)
            \<longrightarrow> q \<in> set ps)"

section \<open>Concrete values for evaluation\<close>

text \<open>
  One assignment of the flag constants (single bits, in the order in which the comment
  of \<^verbatim>\<open>setFlags\<close> lists them), an engine whose finder reports the primes of its
  interval in \<^verbatim>\<open>counts[0]\<close> and nothing else, and a PrimeSieve object as its constructor
  leaves it with a sieve size of 64 KiB. They serve to evaluate the model on concrete
  inputs.
\<close>

definition example_flags :: flag_bits where
  "example_flags = \<lparr>COUNT_PRIMES = 1, PRINT_PRIMES = 128, CALLBACK_PRIMES = 32768\<rparr>"

definition example_finder ::
  "64 word \<Rightarrow> 64 word \<Rightarrow> 32 word \<Rightarrow> 32 word \<Rightarrow> nat list \<Rightarrow> finder_result" where
  "example_finder lo hi sz fl ns =
     \<lparr>f_counts = [of_nat (length (filter is_prime [unat lo..<Suc (unat hi)])), 0, 0, 0, 0, 0, 0],
      f_printed = [], f_callback_args = []\<rparr>"

definition example_engine :: engine where
  "example_engine = \<lparr>eliminateUpTo = 19, finder_run = example_finder\<rparr>"

definition example_sieve :: PrimeSieve where
  "example_sieve =
     \<lparr>startNumber = 0, stopNumber = 0, sieveSize = 65536, flags = 1,
      counts = [0, 0, 0, 0, 0, 0, 0], printed = [], callback_args = []\<rparr>"

text \<open>Probes of which the second, the thread siblings of core 0, throws.\<close>

definition example_probes :: probes where
  "example_probes =
     \<lparr>name_probe = ''cpu'', online_probe = Inr 8, siblings_probe = Inl ''stoul'',
      level_probe = (\<lambda>i. Inr 1), type_probe = (\<lambda>i. ''Data''),
      size_probe = (\<lambda>i. Inr 32768), shared_probe = (\<lambda>i. Inr 2)\<rparr>"

section \<open>Facts about the helpers\<close>

lemma inBetween_bounds:
  "lo \<le> hi \<Longrightarrow> lo \<le> inBetween lo x hi \<and> inBetween lo x hi \<le> hi"
  by (auto simp: inBetween_def)

lemma inBetween_id: "lo \<le> x \<Longrightarrow> x \<le> hi \<Longrightarrow> inBetween lo x hi = x"
  by (auto simp: inBetween_def)

lemma floorPow2_pow: "0 < x \<Longrightarrow> \<exists>k. floorPow2 x = 2 ^ k \<and> 2 ^ k \<le> x \<and> x < 2 ^ Suc k"
proof (induction x rule: floorPow2.induct)
  case (1 x)
  show ?case
  proof (cases "x < 2")
    case True
    with "1.prems" have "x = 1" by simp
    then have "floorPow2 x = 2 ^ 0 \<and> 2 ^ 0 \<le> x \<and> x < 2 ^ Suc 0"
      by (simp add: floorPow2.simps)
    then show ?thesis by blast
  next
    case False
    then have "0 < x div 2" by simp
    with "1.IH" False obtain k where
      k: "floorPow2 (x div 2) = 2 ^ k" "2 ^ k \<le> x div 2" "x div 2 < 2 ^ Suc k"
      by blast
    from False k(1) have a: "floorPow2 x = 2 ^ Suc k"
      by (subst floorPow2.simps) simp
    from k(2) have b: "2 ^ Suc k \<le> x" by simp
    from k(3) have c: "x < 2 ^ Suc (Suc k)" by simp
    from a b c show ?thesis by blast
  qed
qed

lemma pow2_between:
  assumes "(2::nat) ^ a \<le> x" and "x < 2 ^ Suc k"
  shows "a \<le> k"
proof (rule ccontr)
  assume "\<not> a \<le> k"
  then have "Suc k \<le> a" by simp
  then have "(2::nat) ^ Suc k \<le> 2 ^ a"
    by (rule power_increasing) simp
  with assms show False by simp
qed

lemma floorPow2_range:
  assumes "2 ^ a \<le> x" and "x \<le> 2 ^ b"
  shows "\<exists>k. a \<le> k \<and> k \<le> b \<and> floorPow2 x = 2 ^ k \<and> 2 ^ k \<le> x \<and> x < 2 ^ Suc k"
proof -
  from assms(1) have "0 < x"
    by (metis gr0I not_less zero_less_numeral zero_less_power)
  from floorPow2_pow [OF this] obtain k where
    k: "floorPow2 x = 2 ^ k" "2 ^ k \<le> x" "x < 2 ^ Suc k"
    by blast
  from assms(1) k(3) have "a \<le> k" by (rule pow2_between)
  moreover have "k \<le> b"
  proof (rule pow2_between)
    show "(2::nat) ^ k \<le> x" by (rule k(2))
    have "(2::nat) ^ b < 2 ^ Suc b" by simp
    with assms(2) show "x < 2 ^ Suc b" by (rule le_less_trans)
  qed
  ultimately show ?thesis using k by blast
qed

lemma floorPow2_fixed: "floorPow2 (2 ^ k) = 2 ^ k"
proof (induction k)
  case 0
  show ?case by (simp add: floorPow2.simps)
next
  case (Suc k)
  have "\<not> (2::nat) ^ Suc k < 2" by simp
  then have "floorPow2 (2 ^ Suc k) = 2 * floorPow2 (2 ^ Suc k div 2)"
    by (subst floorPow2.simps) (simp only: if_False)
  with Suc show ?case by simp
qed

section \<open>Sieve size set by the user\<close>

lemma sieve_size_set:
  "sieve_size (set_sieve_size kib st) = floorPow2_int (inBetween 8 kib 4096)"
  by (simp add: set_sieve_size_def Let_def)

lemma clamped_kib_pow2:
  "\<exists>k. 3 \<le> k \<and> k \<le> 12 \<and> floorPow2_int (inBetween 8 kib 4096) = 2 ^ k
        \<and> 2 ^ k \<le> inBetween 8 kib 4096 \<and> inBetween 8 kib 4096 < 2 ^ Suc k"
proof -
  define c where "c = inBetween 8 kib 4096"
  have cb: "8 \<le> c \<and> c \<le> 4096"
    unfolding c_def by (rule inBetween_bounds) simp
  then have "2 ^ 3 \<le> nat c" and "nat c \<le> 2 ^ 12" by auto
  from floorPow2_range [OF this] obtain k where
    k: "3 \<le> k" "k \<le> 12" "floorPow2 (nat c) = 2 ^ k" "2 ^ k \<le> nat c" "nat c < 2 ^ Suc k"
    by blast
  from cb have ic: "int (nat c) = c" by simp
  have "floorPow2_int c = 2 ^ k"
    using k(3) by (simp add: floorPow2_int_def)
  moreover have "2 ^ k \<le> c"
  proof -
    from k(4) have "int (2 ^ k) \<le> int (nat c)" by (simp only: of_nat_le_iff)
    with ic show ?thesis by simp
  qed
  moreover have "c < 2 ^ Suc k"
  proof -
    from k(5) have "int (nat c) < int (2 ^ Suc k)" by (simp only: of_nat_less_iff)
    with ic show ?thesis by simp
  qed
  ultimately show ?thesis
    using k(1,2) unfolding c_def by blast
qed

text \<open>
  C4. After \<^verbatim>\<open>set_sieve_size(kib)\<close>, \<^verbatim>\<open>get_sieve_size()\<close> returns the largest power of
  two that does not exceed the clamp of \<open>kib\<close> to [8, 4096]: a value \<open>2 ^ k\<close> with
  \<open>3 \<le> k \<le> 12\<close>, \<open>2 ^ k \<le> clamp < 2 ^ (k + 1)\<close>; and setting the returned value again
  leaves the stored size unchanged. This holds for every integer \<open>kib\<close>, every CPU
  description and every prior state.
\<close>

theorem set_sieve_size_floor_pow2:
  "(\<exists>k. 3 \<le> k \<and> k \<le> 12
       \<and> get_sieve_size cpu priv l2t fits (set_sieve_size kib st) = 2 ^ k
       \<and> 2 ^ k \<le> inBetween 8 kib 4096 \<and> inBetween 8 kib 4096 < 2 ^ Suc k)
   \<and> set_sieve_size (get_sieve_size cpu priv l2t fits (set_sieve_size kib st))
        (set_sieve_size kib st) = set_sieve_size kib st"
proof -
  from clamped_kib_pow2 [of kib] obtain k where
    k: "3 \<le> k" "k \<le> 12" "floorPow2_int (inBetween 8 kib 4096) = 2 ^ k"
       "2 ^ k \<le> inBetween 8 kib 4096" "inBetween 8 kib 4096 < 2 ^ Suc k"
    by blast
  have nz: "(2::int) ^ k \<noteq> 0" by simp
  have g: "get_sieve_size cpu priv l2t fits (set_sieve_size kib st) = 2 ^ k"
    using sieve_size_set [of kib st] k(3) nz
    by (simp add: get_sieve_size_def get_sieve_size_stop_def)
  have lo: "(8::int) \<le> 2 ^ k"
  proof -
    have "(2::int) ^ 3 \<le> 2 ^ k" using k(1) by (intro power_increasing) simp_all
    then show ?thesis by simp
  qed
  have hi: "(2::int) ^ k \<le> 4096"
  proof -
    have "(2::int) ^ k \<le> 2 ^ 12" using k(2) by (intro power_increasing) simp_all
    then show ?thesis by simp
  qed
  have cl: "inBetween 8 ((2::int) ^ k) 4096 = 2 ^ k"
    using lo hi by (rule inBetween_id)
  have fx: "floorPow2_int (2 ^ k) = 2 ^ k"
    by (simp add: floorPow2_int_def nat_power_eq floorPow2_fixed)
  have again: "set_sieve_size (2 ^ k) (set_sieve_size kib st) = set_sieve_size kib st"
    using k(3) by (simp add: set_sieve_size_def Let_def cl fx)
  from k g again show ?thesis by (simp only:) blast
qed

section \<open>Thread count set by the user\<close>

lemma inBetween_max_min: "lo \<le> hi \<Longrightarrow> inBetween lo x hi = max lo (min x hi)"
  by (auto simp: inBetween_def max_def min_def)

text \<open>
  C6. If the hardware offers at least one thread (\<open>1 \<le> maxThreads\<close>, the value of the
  absent \<^verbatim>\<open>getMaxThreads()\<close>), then after \<^verbatim>\<open>set_num_threads(n)\<close> the call
  \<^verbatim>\<open>get_num_threads()\<close> returns \<open>n\<close> clamped to [1, maxThreads], for every integer \<open>n\<close>;
  every \<open>n \<le> 0\<close> gives 1. The setter has no failing branch: it is a total state update.
\<close>

theorem set_num_threads_clamped:
  assumes "1 \<le> maxThreads"
  shows "get_num_threads maxThreads (set_num_threads maxThreads n st) = max 1 (min n maxThreads)
       \<and> 1 \<le> get_num_threads maxThreads (set_num_threads maxThreads n st)
       \<and> get_num_threads maxThreads (set_num_threads maxThreads n st) \<le> maxThreads
       \<and> (n \<le> 0 \<longrightarrow> get_num_threads maxThreads (set_num_threads maxThreads n st) = 1)"
proof -
  have b: "1 \<le> inBetween 1 n maxThreads \<and> inBetween 1 n maxThreads \<le> maxThreads"
    using assms by (rule inBetween_bounds)
  then have nz: "inBetween 1 n maxThreads \<noteq> 0" by simp
  have g: "get_num_threads maxThreads (set_num_threads maxThreads n st) = inBetween 1 n maxThreads"
    using nz by (simp add: get_num_threads_def set_num_threads_def)
  have m: "inBetween 1 n maxThreads = max 1 (min n maxThreads)"
    using assms by (rule inBetween_max_min)
  have z: "n \<le> 0 \<longrightarrow> inBetween 1 n maxThreads = 1"
    by (simp add: inBetween_def)
  from g b m z show ?thesis by simp
qed

theorem set_num_threads_clamped_witness:
  "(1::int) \<le> 8
   \<and> get_num_threads 8 (set_num_threads 8 (- 3) api_init) = 1
   \<and> get_num_threads 8 (set_num_threads 8 5 api_init) = 5
   \<and> get_num_threads 8 (set_num_threads 8 100 api_init) = 8"
proof -
  have h: "(1::int) \<le> 8" by simp
  show ?thesis
    using h set_num_threads_clamped [OF h, of "- 3" api_init]
      set_num_threads_clamped [OF h, of 5 api_init]
      set_num_threads_clamped [OF h, of 100 api_init]
    by simp
qed

section \<open>Sieve size derived from the CPU caches\<close>

lemma floorPow2_clamp:
  assumes "c = max (2 ^ a) (min x (2 ^ b))" and "a \<le> b"
  shows "\<exists>k. a \<le> k \<and> k \<le> b \<and> int (floorPow2 c) = 2 ^ k \<and> 2 ^ k \<le> c \<and> c < 2 ^ Suc k"
proof -
  have ab: "(2::nat) ^ a \<le> 2 ^ b"
    using assms(2) by (intro power_increasing) simp_all
  have lo: "2 ^ a \<le> c" using assms(1) by simp
  have hi: "c \<le> 2 ^ b" using assms(1) ab by simp
  from floorPow2_range [OF lo hi] obtain k where
    k: "a \<le> k" "k \<le> b" "floorPow2 c = 2 ^ k" "2 ^ k \<le> c" "c < 2 ^ Suc k"
    by blast
  from k(3) have "int (floorPow2 c) = 2 ^ k" by simp
  with k show ?thesis by blast
qed

text \<open>
  C7. With no user sieve size (\<open>sieve_size = 0\<close>), \<^verbatim>\<open>get_sieve_size(stop)\<close> returns
  \<open>2 ^ k\<close> KiB with \<open>3 \<le> k \<le> 12\<close>, for every CPU description, every value of the absent
  accessors and every \<open>stop\<close>. When a valid private L2 cache larger than L1 is reported,
  the value is the largest power of two not above the clamp to [32, 4096] of the L2 size
  in KiB, either divided by the threads sharing it (at most 4) or undivided. Otherwise
  it is the largest power of two not above the clamp to [8, 4096] of the L1 size in KiB,
  where 32 replaces the size of an L1 cache that is not valid.
\<close>

theorem get_sieve_size_default:
  assumes "sieve_size st = 0"
  shows "\<exists>k. 3 \<le> k \<and> k \<le> 12
       \<and> get_sieve_size_stop cpu priv l2t fits st stop = 2 ^ k
       \<and> (if hasL2Cache cpu \<and> priv \<and> l1CacheSize cpu div 1024 < l2CacheSize cpu div 1024
          then 5 \<le> k \<and>
            (\<exists>x \<in> {l2CacheSize cpu div 1024 div max 1 (min l2t 4), l2CacheSize cpu div 1024}.
               2 ^ k \<le> max 32 (min x 4096) \<and> max 32 (min x 4096) < 2 ^ Suc k)
          else
            (\<exists>x \<in> {if hasL1Cache cpu then l1CacheSize cpu div 1024 else 32}.
               2 ^ k \<le> max 8 (min x 4096) \<and> max 8 (min x 4096) < 2 ^ Suc k))"
proof -
  define l1 where "l1 = l1CacheSize cpu div 1024"
  define l2 where "l2 = l2CacheSize cpu div 1024"
  define d where "d = l2 div max 1 (min l2t 4)"
  have cl32: "\<And>x::nat. inBetween 32 x 4096 = max (2 ^ 5) (min x (2 ^ 12))"
    by (simp add: inBetween_max_min)
  have cl8: "\<And>x::nat. inBetween 8 x 4096 = max (2 ^ 3) (min x (2 ^ 12))"
    by (simp add: inBetween_max_min)
  have cl1: "inBetween (Suc 0) l2t 4 = max (Suc 0) (min l2t 4)"
    by (simp add: inBetween_max_min)
  show ?thesis
  proof (cases "hasL2Cache cpu \<and> priv \<and> l1 < l2")
    case True
    show ?thesis
    proof (cases "fits stop (floorPow2 (inBetween 32 d 4096) * 1024)")
      case fit: True
      have r: "get_sieve_size_stop cpu priv l2t fits st stop = int (floorPow2 (inBetween 32 d 4096))"
        using assms True fit
        by (simp add: get_sieve_size_stop_def Let_def l1_def l2_def d_def cl1)
      from floorPow2_clamp [OF cl32 [of d]] obtain k where
        k: "5 \<le> k" "k \<le> 12" "int (floorPow2 (inBetween 32 d 4096)) = 2 ^ k"
           "2 ^ k \<le> inBetween 32 d 4096" "inBetween 32 d 4096 < 2 ^ Suc k"
        by auto
      have "3 \<le> k" using k(1) by simp
      moreover have "2 ^ k \<le> max 32 (min d 4096) \<and> max 32 (min d 4096) < 2 ^ Suc k"
        using k(4,5) by (simp add: cl32)
      ultimately show ?thesis
        using True k(1,2,3) r unfolding l1_def l2_def d_def
        by (intro exI [of _ k]) simp
    next
      case nofit: False
      have r: "get_sieve_size_stop cpu priv l2t fits st stop = int (floorPow2 (inBetween 32 l2 4096))"
        using assms True nofit
        by (simp add: get_sieve_size_stop_def Let_def l1_def l2_def d_def cl1)
      from floorPow2_clamp [OF cl32 [of l2]] obtain k where
        k: "5 \<le> k" "k \<le> 12" "int (floorPow2 (inBetween 32 l2 4096)) = 2 ^ k"
           "2 ^ k \<le> inBetween 32 l2 4096" "inBetween 32 l2 4096 < 2 ^ Suc k"
        by auto
      have "3 \<le> k" using k(1) by simp
      moreover have "2 ^ k \<le> max 32 (min l2 4096) \<and> max 32 (min l2 4096) < 2 ^ Suc k"
        using k(4,5) by (simp add: cl32)
      ultimately show ?thesis
        using True k(1,2,3) r unfolding l1_def l2_def d_def
        by (intro exI [of _ k]) simp
    qed
  next
    case False
    define x where "x = (if hasL1Cache cpu then l1 else 32)"
    have r: "get_sieve_size_stop cpu priv l2t fits st stop = int (floorPow2 (inBetween 8 x 4096))"
      using assms False
      by (auto simp: get_sieve_size_stop_def Let_def l1_def l2_def x_def)
    from floorPow2_clamp [OF cl8 [of x]] obtain k where
      k: "3 \<le> k" "k \<le> 12" "int (floorPow2 (inBetween 8 x 4096)) = 2 ^ k"
         "2 ^ k \<le> inBetween 8 x 4096" "inBetween 8 x 4096 < 2 ^ Suc k"
      by auto
    have "2 ^ k \<le> max 8 (min x 4096) \<and> max 8 (min x 4096) < 2 ^ Suc k"
      using k(4,5) by (simp add: cl8)
    then show ?thesis
      using False k(1,2,3) r unfolding l1_def l2_def x_def
      by (intro exI [of _ k]) auto
  qed
qed

theorem get_sieve_size_default_witness:
  "sieve_size api_init = 0
   \<and> (\<exists>k. 3 \<le> k \<and> k \<le> 12
        \<and> get_sieve_size_stop
            \<lparr>cpuName = [], cpuCores = 4, cpuThreads = 8, threadsPerCore = 2,
             cacheSizes = [0, 32768, 262144, 8388608], cacheSharing = [0, 2, 2, 8],
             error = []\<rparr>
            True 2 (\<lambda>s b. True) api_init 1000 = 2 ^ k)"
proof -
  have h: "sieve_size api_init = 0" by (simp add: api_init_def)
  from get_sieve_size_default [OF h] show ?thesis
    using h by blast
qed

section \<open>Integer square root and primes\<close>

lemma U32SQRT_bounds:
  "U32SQRT x * U32SQRT x \<le> x \<and> x < (U32SQRT x + 1) * (U32SQRT x + 1)"
proof (induction x rule: U32SQRT.induct)
  case (1 x)
  show ?case
  proof (cases "x < 4")
    case True
    then have u: "U32SQRT x = (if x = 0 then 0 else 1)"
      by (subst U32SQRT.simps) simp
    from True show ?thesis unfolding u by auto
  next
    case False
    define q where "q = U32SQRT (x div 4)"
    define r where "r = 2 * q"
    from "1.IH" False have ih: "q * q \<le> x div 4" "x div 4 < (q + 1) * (q + 1)"
      by (simp_all add: q_def)
    have lo: "r * r \<le> x"
    proof -
      have "r * r = 4 * (q * q)" by (simp add: r_def)
      also have "\<dots> \<le> 4 * (x div 4)" using ih(1) by simp
      also have "\<dots> \<le> x" by simp
      finally show ?thesis .
    qed
    have hi: "x < (r + 2) * (r + 2)"
    proof -
      from ih(2) have "x div 4 + 1 \<le> (q + 1) * (q + 1)" by simp
      then have "4 * (x div 4 + 1) \<le> 4 * ((q + 1) * (q + 1))" by simp
      moreover have "x < 4 * (x div 4 + 1)" by simp
      moreover have "4 * ((q + 1) * (q + 1)) = (r + 2) * (r + 2)" by (simp add: r_def algebra_simps)
      ultimately show ?thesis by simp
    qed
    have u: "U32SQRT x = (if (r + 1) * (r + 1) \<le> x then r + 1 else r)"
      using False by (subst U32SQRT.simps) (simp add: Let_def r_def q_def)
    show ?thesis
    proof (cases "(r + 1) * (r + 1) \<le> x")
      case True
      with u have "U32SQRT x = r + 1" by simp
      with True hi show ?thesis by (simp add: algebra_simps)
    next
      case False
      with u have "U32SQRT x = r" by simp
      with False lo show ?thesis by simp
    qed
  qed
qed

lemma U32SQRT_less: "x < r * r \<Longrightarrow> U32SQRT x < r"
proof (rule ccontr)
  assume a: "x < r * r" and "\<not> U32SQRT x < r"
  then have "r \<le> U32SQRT x" by simp
  then have "r * r \<le> U32SQRT x * U32SQRT x" by (simp add: mult_le_mono)
  also have "\<dots> \<le> x" using U32SQRT_bounds [of x] by simp
  finally show False using a by simp
qed

lemma U32SQRT_ge: "r * r \<le> x \<Longrightarrow> r \<le> U32SQRT x"
proof (rule ccontr)
  assume a: "r * r \<le> x" and "\<not> r \<le> U32SQRT x"
  then have "U32SQRT x + 1 \<le> r" by simp
  then have "(U32SQRT x + 1) * (U32SQRT x + 1) \<le> r * r" by (simp only: mult_le_mono)
  with a U32SQRT_bounds [of x] show False by simp
qed

lemma U32SQRT_mono: "x \<le> y \<Longrightarrow> U32SQRT x \<le> U32SQRT y"
proof (rule U32SQRT_ge)
  assume "x \<le> y"
  with U32SQRT_bounds [of x] show "U32SQRT x * U32SQRT x \<le> y" by simp
qed

lemma is_prime_dvd: "is_prime p \<Longrightarrow> d dvd p \<Longrightarrow> d = 1 \<or> d = p"
proof -
  assume p: "is_prime p" and d: "d dvd p"
  from p have "0 < p" by (simp add: is_prime_def)
  with d have "d \<le> p" "0 < d" by (auto dest: dvd_imp_le intro: Nat.gr0I)
  show ?thesis
  proof (rule ccontr)
    assume "\<not> (d = 1 \<or> d = p)"
    with \<open>d \<le> p\<close> \<open>0 < d\<close> have "d \<in> {2..<p}" by auto
    with p d show False by (auto simp: is_prime_def)
  qed
qed

lemma prime_factor: "1 < n \<Longrightarrow> \<exists>p. is_prime p \<and> p dvd n"
proof (induction n rule: less_induct)
  case (less n)
  show ?case
  proof (cases "is_prime n")
    case True
    then show ?thesis by auto
  next
    case False
    with less.prems obtain d where d: "2 \<le> d" "d < n" "d dvd n"
      by (auto simp: is_prime_def)
    with less.IH [of d] obtain p where "is_prime p" "p dvd d" by auto
    with d(3) show ?thesis by (blast intro: dvd_trans)
  qed
qed

lemma small_prime_factor:
  assumes "1 < n" and "\<not> is_prime n"
  shows "\<exists>p. is_prime p \<and> p dvd n \<and> p * p \<le> n"
proof -
  from assms obtain d where d: "2 \<le> d" "d < n" "d dvd n"
    by (auto simp: is_prime_def)
  then obtain e where e: "n = d * e" by (auto simp: dvd_def)
  with d assms(1) have e2: "2 \<le> e"
    by (cases e; cases "e - 1") auto
  define a where "a = min d e"
  have a2: "1 < a" using d(1) e2 by (simp add: a_def)
  have adv: "a dvd n" using e by (auto simp: a_def min_def)
  have aa: "a * a \<le> n"
  proof -
    have "a * a \<le> d * e" by (rule mult_le_mono) (simp_all add: a_def)
    with e show ?thesis by simp
  qed
  from prime_factor [OF a2] obtain p where p: "is_prime p" "p dvd a" by blast
  from p(2) a2 have "p \<le> a" by (auto dest: dvd_imp_le)
  then have "p * p \<le> a * a" by (simp add: mult_le_mono)
  with aa have "p * p \<le> n" by simp
  moreover from p(2) adv have "p dvd n" by (rule dvd_trans)
  ultimately show ?thesis using p(1) by blast
qed

lemma no_factor_iff: "no_factor n d \<longleftrightarrow> (\<forall>k. d \<le> k \<and> k * k \<le> n \<longrightarrow> \<not> k dvd n)"
proof (induction n d rule: no_factor.induct)
  case (1 n d)
  show ?case
  proof (cases "n < d * d")
    case True
    have "\<And>k. d \<le> k \<Longrightarrow> n < k * k"
    proof -
      fix k assume "d \<le> k"
      then have "d * d \<le> k * k" by (simp add: mult_le_mono)
      with True show "n < k * k" by simp
    qed
    then have "\<forall>k. d \<le> k \<and> k * k \<le> n \<longrightarrow> \<not> k dvd n"
      by (metis not_less)
    moreover from True have "no_factor n d" by (subst no_factor.simps) simp
    ultimately show ?thesis by simp
  next
    case False
    show ?thesis
    proof (cases "d dvd n")
      case True
      with False have "\<not> no_factor n d" by (subst no_factor.simps) simp
      moreover from True False have "\<not> (\<forall>k. d \<le> k \<and> k * k \<le> n \<longrightarrow> \<not> k dvd n)"
        by (metis le_refl not_less)
      ultimately show ?thesis by simp
    next
      case nd: False
      with False have "no_factor n d = no_factor n (d + 1)"
        by (subst no_factor.simps) simp
      also from "1.IH" False nd
      have "\<dots> \<longleftrightarrow> (\<forall>k. d + 1 \<le> k \<and> k * k \<le> n \<longrightarrow> \<not> k dvd n)" by simp
      also have "\<dots> \<longleftrightarrow> (\<forall>k. d \<le> k \<and> k * k \<le> n \<longrightarrow> \<not> k dvd n)"
      proof
        assume a: "\<forall>k. d + 1 \<le> k \<and> k * k \<le> n \<longrightarrow> \<not> k dvd n"
        show "\<forall>k. d \<le> k \<and> k * k \<le> n \<longrightarrow> \<not> k dvd n"
        proof (intro allI impI)
          fix k assume k: "d \<le> k \<and> k * k \<le> n"
          show "\<not> k dvd n"
          proof (cases "k = d")
            case True
            with nd show ?thesis by simp
          next
            case False
            with k have "d + 1 \<le> k \<and> k * k \<le> n" by simp
            with a show ?thesis by blast
          qed
        qed
      next
        assume a: "\<forall>k. d \<le> k \<and> k * k \<le> n \<longrightarrow> \<not> k dvd n"
        show "\<forall>k. d + 1 \<le> k \<and> k * k \<le> n \<longrightarrow> \<not> k dvd n"
        proof (intro allI impI)
          fix k assume "d + 1 \<le> k \<and> k * k \<le> n"
          then have "d \<le> k \<and> k * k \<le> n" by simp
          with a show "\<not> k dvd n" by blast
        qed
      qed
      finally show ?thesis .
    qed
  qed
qed

lemma is_prime_iff_no_factor: "is_prime n \<longleftrightarrow> 1 < n \<and> no_factor n 2"
proof
  assume p: "is_prime n"
  then have n: "1 < n" by (simp add: is_prime_def)
  have "\<And>k. 2 \<le> k \<Longrightarrow> k * k \<le> n \<Longrightarrow> \<not> k dvd n"
  proof
    fix k assume k: "2 \<le> k" "k * k \<le> n" "k dvd n"
    from is_prime_dvd [OF p k(3)] k(1) have "k = n" by simp
    with k(2) have "n * n \<le> n * 1" by simp
    then have "n \<le> 1" by (simp only: mult_le_cancel1) (use n in simp)
    with n show False by simp
  qed
  then have "no_factor n 2" by (simp add: no_factor_iff)
  with n show "1 < n \<and> no_factor n 2" by simp
next
  assume a: "1 < n \<and> no_factor n 2"
  show "is_prime n"
  proof (rule ccontr)
    assume "\<not> is_prime n"
    with a small_prime_factor [of n] obtain p where
      p: "is_prime p" "p dvd n" "p * p \<le> n" by blast
    from p(1) have "2 \<le> p" by (simp add: is_prime_def)
    with a p(2,3) show False by (auto simp: no_factor_iff)
  qed
qed

lemma is_prime_3: "is_prime 3"
  by (simp add: is_prime_iff_no_factor no_factor.simps)

lemma is_prime_7: "is_prime 7"
  by (simp add: is_prime_iff_no_factor no_factor.simps)

lemma is_prime_47: "is_prime 47"
  by (simp add: is_prime_iff_no_factor no_factor.simps)

lemma is_prime_2203: "is_prime 2203"
  by (simp add: is_prime_iff_no_factor no_factor.simps)

lemma prime_above_sqrt:
  assumes "is_prime n" and "5 \<le> n" and "n < 65536"
  shows "\<exists>r. is_prime r \<and> 3 \<le> r \<and> r < n \<and> U32SQRT n < r"
proof -
  consider "n \<le> 7" | "7 < n" "n \<le> 47" | "47 < n" "n \<le> 2203" | "2203 < n" by linarith
  then show ?thesis
  proof cases
    case 1
    then have "n < 3 * 3" by simp
    then have "U32SQRT n < 3" by (rule U32SQRT_less)
    with is_prime_3 assms(2) show ?thesis by (intro exI [of _ 3]) simp
  next
    case 2
    then have "n < 7 * 7" by simp
    then have "U32SQRT n < 7" by (rule U32SQRT_less)
    with is_prime_7 2 show ?thesis by (intro exI [of _ 7]) simp
  next
    case 3
    then have "n < 47 * 47" by simp
    then have "U32SQRT n < 47" by (rule U32SQRT_less)
    with is_prime_47 3 show ?thesis by (intro exI [of _ 47]) simp
  next
    case 4
    from assms(3) have "n < 2203 * 2203" by simp
    then have "U32SQRT n < 2203" by (rule U32SQRT_less)
    with is_prime_2203 4 show ?thesis by (intro exI [of _ 2203]) simp
  qed
qed


lemma scan_SomeD:
  "scan ps s n i = Some j \<Longrightarrow>
     i \<le> j \<and> j < length ps \<and> \<not> (ps ! j \<le> s \<and> n mod ps ! j \<noteq> 0)
     \<and> (\<forall>k. i \<le> k \<and> k < j \<longrightarrow> ps ! k \<le> s \<and> n mod ps ! k \<noteq> 0)"
proof (induction ps s n i rule: scan.induct)
  case (1 ps s n i)
  show ?case
  proof (cases "i < length ps")
    case False
    then have "scan ps s n i = None" by (subst scan.simps) simp
    with "1.prems" show ?thesis by simp
  next
    case True
    show ?thesis
    proof (cases "ps ! i \<le> s \<and> n mod ps ! i \<noteq> 0")
      case c: True
      with True have "scan ps s n i = scan ps s n (Suc i)" by (subst scan.simps) simp
      with "1.prems" have "scan ps s n (Suc i) = Some j" by simp
      from "1.IH" [OF True c this]
      have ih: "Suc i \<le> j" "j < length ps" "\<not> (ps ! j \<le> s \<and> n mod ps ! j \<noteq> 0)"
        "\<forall>k. Suc i \<le> k \<and> k < j \<longrightarrow> ps ! k \<le> s \<and> n mod ps ! k \<noteq> 0"
        by simp_all
      have "\<forall>k. i \<le> k \<and> k < j \<longrightarrow> ps ! k \<le> s \<and> n mod ps ! k \<noteq> 0"
      proof (intro allI impI)
        fix k assume k: "i \<le> k \<and> k < j"
        show "ps ! k \<le> s \<and> n mod ps ! k \<noteq> 0"
        proof (cases "k = i")
          case True
          with c show ?thesis by simp
        next
          case False
          with k have "Suc i \<le> k \<and> k < j" by simp
          with ih(4) show ?thesis by blast
        qed
      qed
      with ih(1,2,3) show ?thesis by simp
    next
      case c: False
      with True have "scan ps s n i = Some i" by (subst scan.simps) auto
      with "1.prems" have "j = i" by simp
      with True c show ?thesis by simp
    qed
  qed
qed

lemma scan_Some_ex:
  "i \<le> j \<Longrightarrow> j < length ps \<Longrightarrow> \<not> (ps ! j \<le> s \<and> n mod ps ! j \<noteq> 0)
   \<Longrightarrow> \<exists>k. scan ps s n i = Some k"
proof (induction ps s n i rule: scan.induct)
  case (1 ps s n i)
  from "1.prems"(1,2) have il: "i < length ps" by simp
  show ?case
  proof (cases "ps ! i \<le> s \<and> n mod ps ! i \<noteq> 0")
    case c: True
    with "1.prems"(3) have "i \<noteq> j" by auto
    with "1.prems"(1) have "Suc i \<le> j" by simp
    from "1.IH" [OF il c this "1.prems"(2,3)]
    obtain k where "scan ps s n (Suc i) = Some k" ..
    moreover from il c have "scan ps s n i = scan ps s n (Suc i)"
      by (subst scan.simps) simp
    ultimately show ?thesis by simp
  next
    case c: False
    with il have "scan ps s n i = Some i" by (subst scan.simps) auto
    then show ?thesis ..
  qed
qed

lemma not_is_prime_4: "\<not> is_prime 4"
proof
  assume "is_prime 4"
  moreover have "(2::nat) dvd 4" by simp
  ultimately have "(2::nat) = 1 \<or> (2::nat) = 4" by (rule is_prime_dvd)
  then show False by simp
qed

lemma is_prime_ge_5: "is_prime r \<Longrightarrow> 3 \<le> r \<Longrightarrow> r \<noteq> 3 \<Longrightarrow> 5 \<le> r"
proof -
  assume a: "is_prime r" "3 \<le> r" "r \<noteq> 3"
  with not_is_prime_4 have "r \<noteq> 4" by auto
  with a show ?thesis by simp
qed

lemma td_invD:
  assumes "td_inv K n ps"
  shows "odd n" and "5 \<le> n" and "sorted ps" and "3 \<in> set ps"
    and "\<And>p. p \<in> set ps \<Longrightarrow> is_prime p \<and> 3 \<le> p \<and> p < n"
    and "\<And>q. is_prime q \<Longrightarrow> 5 \<le> q \<Longrightarrow> q < n
      \<Longrightarrow> (\<exists>r. is_prime r \<and> 3 \<le> r \<and> r < q \<and> U32SQRT q < r \<and> r \<le> K) \<Longrightarrow> q \<in> set ps"
  using assms unfolding td_inv_def by blast+

lemma td_invI:
  assumes "odd n" and "5 \<le> n" and "sorted ps" and "3 \<in> set ps"
    and "\<forall>p \<in> set ps. is_prime p \<and> 3 \<le> p \<and> p < n"
    and "\<forall>q. is_prime q \<and> 5 \<le> q \<and> q < n
            \<and> (\<exists>r. is_prime r \<and> 3 \<le> r \<and> r < q \<and> U32SQRT q < r \<and> r \<le> K)
            \<longrightarrow> q \<in> set ps"
  shows "td_inv K n ps"
  unfolding td_inv_def using assms by blast

lemma td_inv_small:
  assumes inv: "td_inv K n ps" and r: "is_prime r" "3 \<le> r" "r < n" "r \<le> K" and b: "r < 65536"
  shows "r \<in> set ps"
proof (cases "r = 3")
  case True
  with td_invD(4) [OF inv] show ?thesis by simp
next
  case False
  with r have r5: "5 \<le> r" by (simp add: is_prime_ge_5)
  from prime_above_sqrt [OF r(1) r5 b] obtain t where
    t: "is_prime t" "3 \<le> t" "t < r" "U32SQRT r < t" by blast
  from t(3) r(4) have "t \<le> K" by simp
  with t have "\<exists>t. is_prime t \<and> 3 \<le> t \<and> t < r \<and> U32SQRT r < t \<and> t \<le> K"
    by blast
  with r(1) r5 r(3) show ?thesis by (rule td_invD(6) [OF inv])
qed

lemma td_step:
  assumes inv: "td_inv K n ps" and n: "n \<le> stop" and b: "stop < 65536" and K: "K = U32SQRT stop"
  shows "\<exists>i. scan ps (U32SQRT n) n 0 = Some i \<and> i < length ps
           \<and> is_prime (ps ! i) \<and> (U32SQRT n < ps ! i \<or> ps ! i dvd n)
           \<and> td_inv K (n + 2)
                (if U32SQRT n < ps ! i then (if ps ! i \<le> K then ps @ [n] else ps) else ps)"
proof -
  define s where "s = U32SQRT n"
  from n K have sK: "s \<le> K" unfolding s_def by (simp add: U32SQRT_mono)
  from n b have nb: "n < 65536" by simp
  note odd = td_invD(1) [OF inv] and n5 = td_invD(2) [OF inv] and srt = td_invD(3) [OF inv]
    and three = td_invD(4) [OF inv] and el = td_invD(5) [OF inv]
  have odd2: "odd (n + 2)" using odd by simp
  have n52: "5 \<le> n + 2" using n5 by simp
  have el2: "\<forall>p \<in> set ps. is_prime p \<and> 3 \<le> p \<and> p < n + 2"
    using el by fastforce
  have closed: "\<And>q. is_prime q \<Longrightarrow> 5 \<le> q \<Longrightarrow> q < n
      \<Longrightarrow> (\<exists>r. is_prime r \<and> 3 \<le> r \<and> r < q \<and> U32SQRT q < r \<and> r \<le> K) \<Longrightarrow> q \<in> set ps"
    by (rule td_invD(6) [OF inv])
  show ?thesis
  proof (cases "is_prime n")
    case pn: True
    have nodiv: "\<And>p. p \<in> set ps \<Longrightarrow> n mod p \<noteq> 0"
    proof
      fix p assume p: "p \<in> set ps" and "n mod p = 0"
      then have "p dvd n" by auto
      from is_prime_dvd [OF pn this] el [OF p] show False by simp
    qed
    have "\<exists>q \<in> set ps. s < q"
    proof (cases "s < 3")
      case True
      with three show ?thesis by blast
    next
      case False
      from prime_above_sqrt [OF pn n5 nb] obtain t where
        t: "is_prime t" "3 \<le> t" "t < n" "s < t" unfolding s_def by blast
      define q where "q = (LEAST q. is_prime q \<and> s < q)"
      have q: "is_prime q \<and> s < q" unfolding q_def
        by (rule LeastI [of _ t]) (use t in simp)
      have qt: "q \<le> t" unfolding q_def
        by (rule Least_le) (use t in simp)
      have qmin: "\<And>u. is_prime u \<Longrightarrow> u < q \<Longrightarrow> u \<le> s"
      proof (rule ccontr)
        fix u assume u: "is_prime u" "u < q" "\<not> u \<le> s"
        then have "is_prime u \<and> s < u" by simp
        then have "q \<le> u" unfolding q_def by (rule Least_le)
        with u(2) show False by simp
      qed
      from q False have "3 \<le> q" "q \<noteq> 3" by simp_all
      with q have q5: "5 \<le> q" by (simp add: is_prime_ge_5)
      from qt t(3) have qn: "q < n" by simp
      with nb have "q < 65536" by simp
      from prime_above_sqrt [OF _ q5 this] q obtain r where
        r: "is_prime r" "3 \<le> r" "r < q" "U32SQRT q < r" by blast
      from qmin [OF r(1,3)] sK have "r \<le> K" by simp
      with r have "\<exists>r. is_prime r \<and> 3 \<le> r \<and> r < q \<and> U32SQRT q < r \<and> r \<le> K" by blast
      from closed [OF _ q5 qn this] q have "q \<in> set ps" by simp
      with q show ?thesis by blast
    qed
    then obtain j where j: "j < length ps" "s < ps ! j"
      by (auto simp: in_set_conv_nth)
    then have "\<not> (ps ! j \<le> s \<and> n mod ps ! j \<noteq> 0)" by simp
    from scan_Some_ex [OF _ j(1) this, of 0] obtain i where i: "scan ps s n 0 = Some i" by auto
    from scan_SomeD [OF i]
    have il: "i < length ps" and stopc: "\<not> (ps ! i \<le> s \<and> n mod ps ! i \<noteq> 0)"
      and before: "\<And>k. k < i \<Longrightarrow> ps ! k \<le> s" by simp_all
    from il have mem: "ps ! i \<in> set ps" by simp
    from nodiv [OF mem] stopc have big: "s < ps ! i" by simp
    have inv2: "td_inv K (n + 2) (if ps ! i \<le> K then ps @ [n] else ps)"
    proof (cases "ps ! i \<le> K")
      case True
      have s3: "sorted (ps @ [n])" using srt el by (fastforce simp: sorted_append)
      have t3: "3 \<in> set (ps @ [n])" using three by simp
      have e3: "\<forall>p \<in> set (ps @ [n]). is_prime p \<and> 3 \<le> p \<and> p < n + 2"
        using el2 pn n5 by auto
      have c3: "\<forall>q. is_prime q \<and> 5 \<le> q \<and> q < n + 2
            \<and> (\<exists>r. is_prime r \<and> 3 \<le> r \<and> r < q \<and> U32SQRT q < r \<and> r \<le> K)
            \<longrightarrow> q \<in> set (ps @ [n])"
      proof (intro allI impI)
        fix q
        assume a: "is_prime q \<and> 5 \<le> q \<and> q < n + 2
            \<and> (\<exists>r. is_prime r \<and> 3 \<le> r \<and> r < q \<and> U32SQRT q < r \<and> r \<le> K)"
        show "q \<in> set (ps @ [n])"
        proof (cases "q < n")
          case True
          with a closed [of q] show ?thesis by simp
        next
          case False
          have "q \<noteq> n + 1"
          proof
            assume e: "q = n + 1"
            with odd have "2 dvd q" by simp
            with a is_prime_dvd [of q 2] have "q = 2" by auto
            with a show False by simp
          qed
          with False a have "q = n" by simp
          then show ?thesis by simp
        qed
      qed
      have "td_inv K (n + 2) (ps @ [n])"
        by (rule td_invI [OF odd2 n52 s3 t3 e3 c3])
      with True show ?thesis by simp
    next
      case False
      have "\<forall>q. is_prime q \<and> 5 \<le> q \<and> q < n + 2
            \<and> (\<exists>r. is_prime r \<and> 3 \<le> r \<and> r < q \<and> U32SQRT q < r \<and> r \<le> K)
            \<longrightarrow> q \<in> set ps"
      proof (intro allI impI)
        fix q
        assume a: "is_prime q \<and> 5 \<le> q \<and> q < n + 2
            \<and> (\<exists>r. is_prime r \<and> 3 \<le> r \<and> r < q \<and> U32SQRT q < r \<and> r \<le> K)"
        show "q \<in> set ps"
        proof (cases "q < n")
          case True
          with a closed [of q] show ?thesis by simp
        next
          case qn: False
          have "q \<noteq> n + 1"
          proof
            assume e: "q = n + 1"
            with odd have "2 dvd q" by simp
            with a is_prime_dvd [of q 2] have "q = 2" by auto
            with a show False by simp
          qed
          with qn a have qeq: "q = n" by simp
          from a obtain r where
            r: "is_prime r" "3 \<le> r" "r < q" "U32SQRT q < r" "r \<le> K" by blast
          from r(3) qeq have "r < n" by simp
          moreover from this nb have "r < 65536" by simp
          ultimately have "r \<in> set ps" by (rule td_inv_small [OF inv r(1,2) _ r(5)])
          then obtain m where m: "m < length ps" "ps ! m = r"
            by (auto simp: in_set_conv_nth)
          from r(4) qeq have "s < r" by (simp add: s_def)
          with m before [of m] have "\<not> m < i" by auto
          then have "i \<le> m" by simp
          from sorted_nth_mono [OF srt this m(1)] m(2) have "ps ! i \<le> r" by simp
          with r(5) False show ?thesis by simp
        qed
      qed
      with odd2 n52 srt three el2 have "td_inv K (n + 2) ps"
        by (rule td_invI)
      with False show ?thesis by simp
    qed
    from el [OF mem] have "is_prime (ps ! i)" by simp
    with i il big inv2 show ?thesis unfolding s_def by auto
  next
    case npn: False
    from n5 have "1 < n" by simp
    from small_prime_factor [OF this npn] obtain p where
      p: "is_prime p" "p dvd n" "p * p \<le> n" by blast
    from p(3) have ps: "p \<le> s" unfolding s_def by (rule U32SQRT_ge)
    have p2: "p \<noteq> 2" using p(2) odd by auto
    from p(1) have "1 < p" by (simp add: is_prime_def)
    with p2 have p3: "3 \<le> p" by simp
    have pn: "p < n"
    proof (rule ccontr)
      assume "\<not> p < n"
      with p(2) n5 have "p = n" by (auto dest: dvd_imp_le)
      with p(1) npn show False by simp
    qed
    from ps sK have "p \<le> K" by simp
    moreover from pn nb have "p < 65536" by simp
    ultimately have "p \<in> set ps" by (rule td_inv_small [OF inv p(1) p3 pn])
    then obtain m where m: "m < length ps" "ps ! m = p"
      by (auto simp: in_set_conv_nth)
    from p(2) have "n mod p = 0" by auto
    with m(2) have "\<not> (ps ! m \<le> s \<and> n mod ps ! m \<noteq> 0)" by simp
    from scan_Some_ex [OF _ m(1) this, of 0] obtain i where i: "scan ps s n 0 = Some i" by auto
    from scan_SomeD [OF i]
    have il: "i < length ps" and stopc: "\<not> (ps ! i \<le> s \<and> n mod ps ! i \<noteq> 0)"
      and before: "\<And>k. k < i \<Longrightarrow> ps ! k \<le> s \<and> n mod ps ! k \<noteq> 0" by simp_all
    from il have mem: "ps ! i \<in> set ps" by simp
    from before [of m] m(2) \<open>n mod p = 0\<close> have "\<not> m < i" by auto
    then have "i \<le> m" by simp
    from sorted_nth_mono [OF srt this m(1)] m(2) ps have small: "ps ! i \<le> s" by simp
    with stopc have dv: "ps ! i dvd n" by auto
    have "\<forall>q. is_prime q \<and> 5 \<le> q \<and> q < n + 2
          \<and> (\<exists>r. is_prime r \<and> 3 \<le> r \<and> r < q \<and> U32SQRT q < r \<and> r \<le> K)
          \<longrightarrow> q \<in> set ps"
    proof (intro allI impI)
      fix q
      assume a: "is_prime q \<and> 5 \<le> q \<and> q < n + 2
          \<and> (\<exists>r. is_prime r \<and> 3 \<le> r \<and> r < q \<and> U32SQRT q < r \<and> r \<le> K)"
      have "q \<noteq> n + 1"
      proof
        assume e: "q = n + 1"
        with odd have "2 dvd q" by simp
        with a is_prime_dvd [of q 2] have "q = 2" by auto
        with a show False by simp
      qed
      moreover from a npn have "q \<noteq> n" by auto
      ultimately have "q < n" using a by simp
      with a closed [of q] show "q \<in> set ps" by simp
    qed
    with odd2 n52 srt three el2 have inv2: "td_inv K (n + 2) ps"
      by (rule td_invI)
    from small have "\<not> s < ps ! i" by simp
    with el [OF mem] i il dv inv2 show ?thesis unfolding s_def by auto
  qed
qed


lemma U32SQRT_le_self: "U32SQRT x \<le> x"
proof (cases "U32SQRT x")
  case 0
  then show ?thesis by simp
next
  case (Suc k)
  then have "U32SQRT x * 1 \<le> U32SQRT x * U32SQRT x" by simp
  also have "\<dots> \<le> x" using U32SQRT_bounds [of x] by simp
  finally show ?thesis by simp
qed

lemma U32SQRT_less_65536: "x < 2 ^ 32 \<Longrightarrow> U32SQRT x < 65536"
  by (rule U32SQRT_less) simp

lemma td_body:
  assumes inv: "td_inv K n ps" and n: "n \<le> stop" and b: "stop < 65536" and K: "K = U32SQRT stop"
  shows "\<exists>ps' sv'. trial_division_body K e n ps sv = Some (ps', sv') \<and> td_inv K (n + 2) ps'"
proof -
  from td_step [OF inv n b K] obtain i where
    i: "scan ps (U32SQRT n) n 0 = Some i"
    and inv2: "td_inv K (n + 2)
              (if U32SQRT n < ps ! i then (if ps ! i \<le> K then ps @ [n] else ps) else ps)"
    by blast
  show ?thesis
  proof (cases "U32SQRT n < ps ! i")
    case True
    with i have "trial_division_body K e n ps sv =
        Some (if ps ! i \<le> K then ps @ [n] else ps, if e < n then sv @ [n] else sv)"
      by (simp add: trial_division_body_def)
    moreover from True inv2 have "td_inv K (n + 2) (if ps ! i \<le> K then ps @ [n] else ps)"
      by simp
    ultimately show ?thesis by blast
  next
    case False
    with i have "trial_division_body K e n ps sv = Some (ps, sv)"
      by (simp add: trial_division_body_def)
    moreover from False inv2 have "td_inv K (n + 2) ps" by simp
    ultimately show ?thesis by blast
  qed
qed

lemma trial_division_Some:
  assumes "td_inv K n ps" and "stop < 65536" and "K = U32SQRT stop"
  shows "\<exists>ps' sv'. trial_division stop K e n ps sv = Some (ps', sv')
           \<and> sorted ps' \<and> (\<forall>p \<in> set ps'. is_prime p \<and> 3 \<le> p)
           \<and> (\<forall>q. is_prime q \<and> 3 \<le> q \<and> q \<le> K \<longrightarrow> q \<in> set ps')"
  using assms
proof (induction stop K e n ps sv rule: trial_division.induct)
  case (1 stop K e n ps sv)
  note inv = "1.prems"(1) and b = "1.prems"(2) and K = "1.prems"(3)
  show ?case
  proof (cases "n \<le> stop")
    case False
    then have r: "trial_division stop K e n ps sv = Some (ps, sv)"
      by (subst trial_division.simps) simp
    have "\<forall>q. is_prime q \<and> 3 \<le> q \<and> q \<le> K \<longrightarrow> q \<in> set ps"
    proof (intro allI impI)
      fix q assume q: "is_prime q \<and> 3 \<le> q \<and> q \<le> K"
      have "K \<le> stop" unfolding K by (rule U32SQRT_le_self)
      with q False b have "q < n" "q < 65536" by simp_all
      with q show "q \<in> set ps" by (intro td_inv_small [OF inv]) simp_all
    qed
    moreover have "\<forall>p \<in> set ps. is_prime p \<and> 3 \<le> p"
      using td_invD(5) [OF inv] by blast
    ultimately show ?thesis unfolding r using td_invD(3) [OF inv] by blast
  next
    case True
    from td_body [OF inv True b K, of e sv] obtain ps1 sv1 where
      body: "trial_division_body K e n ps sv = Some (ps1, sv1)"
      and inv2: "td_inv K (n + 2) ps1"
      by blast
    from "1.IH" [OF True body refl inv2 b K]
    have ih: "\<exists>ps' sv'.
         trial_division stop K e (n + 2) ps1 sv1 = Some (ps', sv')
         \<and> sorted ps' \<and> (\<forall>p \<in> set ps'. is_prime p \<and> 3 \<le> p)
         \<and> (\<forall>q. is_prime q \<and> 3 \<le> q \<and> q \<le> K \<longrightarrow> q \<in> set ps')" .
    from True body have
      "trial_division stop K e n ps sv = trial_division stop K e (n + 2) ps1 sv1"
      by (subst trial_division.simps) simp
    with ih show ?thesis by (simp only:)
  qed
qed

lemma loop_head_inv:
  assumes "loop_head stop K e n ps sv" and "stop < 65536" and "K = U32SQRT stop"
  shows "td_inv K n ps"
  using assms
proof (induction rule: loop_head.induct)
  case start
  show ?case
  proof (rule td_invI)
    show "\<forall>p \<in> set [3]. is_prime p \<and> 3 \<le> p \<and> p < 5" using is_prime_3 by simp
    show "\<forall>q. is_prime q \<and> 5 \<le> q \<and> q < 5
            \<and> (\<exists>r. is_prime r \<and> 3 \<le> r \<and> r < q \<and> U32SQRT q < r \<and> r \<le> K)
            \<longrightarrow> q \<in> set [3]" by simp
  qed simp_all
next
  case (step n ps sv ps' sv')
  from step.IH [OF step.prems] have inv: "td_inv K n ps" .
  from td_body [OF inv step.hyps(2) step.prems, of e sv] step.hyps(3)
  show ?case by simp
qed

lemma loop_head_scan:
  assumes "loop_head stop K e n ps sv" and "stop < 65536" and "K = U32SQRT stop" and "n \<le> stop"
  shows "\<exists>i. scan ps (U32SQRT n) n 0 = Some i \<and> i < length ps
           \<and> is_prime (ps ! i) \<and> (U32SQRT n < ps ! i \<or> ps ! i dvd n)"
proof -
  from loop_head_inv [OF assms(1,2,3)] have "td_inv K n ps" .
  from td_step [OF this assms(4) assms(2) assms(3)] show ?thesis by blast
qed

lemma td_inv_init: "td_inv K 5 [3]"
proof (rule td_invI)
  show "\<forall>p \<in> set [3]. is_prime p \<and> 3 \<le> p \<and> p < 5" using is_prime_3 by simp
  show "\<forall>q. is_prime q \<and> 5 \<le> q \<and> q < 5
            \<and> (\<exists>r. is_prime r \<and> 3 \<le> r \<and> r < q \<and> U32SQRT q < r \<and> r \<le> K)
            \<longrightarrow> q \<in> set [3]" by simp
qed simp_all

lemma generate_sieving_primes_Some:
  assumes "generatorStop < 2 ^ 32"
  shows "\<exists>ps sv. generate_sieving_primes generatorStop e = Some (ps, sv)
           \<and> sorted ps \<and> (\<forall>p \<in> set ps. is_prime p \<and> 3 \<le> p)
           \<and> (\<forall>q. is_prime q \<and> 3 \<le> q \<and> q \<le> U32SQRT (U32SQRT generatorStop) \<longrightarrow> q \<in> set ps)"
proof -
  from assms have "U32SQRT generatorStop < 65536" by (rule U32SQRT_less_65536)
  from trial_division_Some [OF td_inv_init this refl, of e "[]"]
  show ?thesis unfolding generate_sieving_primes_def Let_def .
qed

section \<open>Sieve size of PrimeSieve\<close>

lemma isPowerOf2_iff: "isPowerOf2 x \<longleftrightarrow> (\<exists>k. unat x = 2 ^ k)"
proof
  assume a: "isPowerOf2 x"
  then have "0 < unat x" by (simp add: isPowerOf2_def unat_gt_0)
  from floorPow2_pow [OF this] a show "\<exists>k. unat x = 2 ^ k"
    by (auto simp: isPowerOf2_def)
next
  assume "\<exists>k. unat x = 2 ^ k"
  then obtain k where k: "unat x = 2 ^ k" ..
  then have "x \<noteq> 0" by (metis power_not_zero unat_0 zero_neq_numeral)
  with k show "isPowerOf2 x" by (simp add: isPowerOf2_def floorPow2_fixed)
qed

text \<open>
  C5 (amended). \<^verbatim>\<open>PrimeSieve::setSieveSize\<close> throws \<^verbatim>\<open>std::invalid_argument\<close> exactly
  when the requested size is below 1 KiB, above 8192 KiB, or not a power of two; a size
  that is not a power of two is rejected, not rounded. Otherwise it stores the size in
  bytes, \<open>1024\<close> times the request, without overflow of the 32-bit member.
\<close>

theorem setSieveSize_fails_iff:
  "(isl (setSieveSize sz ps) \<longleftrightarrow> sz < 1 \<or> 8192 < sz \<or> \<not> (\<exists>k. unat sz = 2 ^ k))
   \<and> (\<not> isl (setSieveSize sz ps) \<longrightarrow>
        setSieveSize sz ps = Inr (ps\<lparr>sieveSize := sz * 1024\<rparr>)
        \<and> unat (sz * 1024) = unat sz * 1024)"
proof -
  have "unat (sz * 1024) = unat sz * 1024" if "\<not> 8192 < sz"
  proof -
    from that have "unat sz \<le> 8192" by (simp add: word_le_nat_alt not_less)
    then have "unat sz * 1024 < 2 ^ 32" by simp
    then show ?thesis by (simp add: unat_word_ariths)
  qed
  then show ?thesis
    by (auto simp: setSieveSize_def isPowerOf2_iff)
qed

text \<open>
  C5, instances: 0, 8193 and 48 KiB are rejected, 32 KiB is stored as 32768 bytes.
\<close>

theorem setSieveSize_fails_iff_witness:
  "isl (setSieveSize 0 example_sieve) \<and> isl (setSieveSize 8193 example_sieve)
   \<and> isl (setSieveSize 48 example_sieve)
   \<and> setSieveSize 32 example_sieve = Inr (example_sieve\<lparr>sieveSize := 32768\<rparr>)"
proof -
  have a: "\<not> (\<exists>k. unat (48 :: 32 word) = 2 ^ k)"
    using isPowerOf2_iff [of 48] by (simp add: isPowerOf2_def floorPow2.simps)
  have b: "\<exists>k. unat (32 :: 32 word) = 2 ^ k"
    using isPowerOf2_iff [of 32] by (simp add: isPowerOf2_def floorPow2.simps)
  show ?thesis
    using setSieveSize_fails_iff [of 0 example_sieve] setSieveSize_fails_iff [of 8193 example_sieve]
      setSieveSize_fails_iff [of 48 example_sieve] setSieveSize_fails_iff [of 32 example_sieve] a b
    by simp
qed

text \<open>
  C5 as stated fails: 3 KiB lies inside [1, 8192] and is not a power of two, and
  \<^verbatim>\<open>setSieveSize(3)\<close> throws instead of rounding.
\<close>

theorem setSieveSize_not_rounded_counterexample:
  "(1 :: 32 word) \<le> 3 \<and> (3 :: 32 word) \<le> 8192
   \<and> setSieveSize 3 example_sieve = Inl (invalid_argument ''sieve size must be a power of 2'')"
  by (simp add: setSieveSize_def isPowerOf2_def floorPow2.simps)

section \<open>The explicit list of small primes\<close>

lemma doSmallPrime_same [simp]:
  "startNumber (doSmallPrime fb l h t s ps) = startNumber ps"
  "stopNumber (doSmallPrime fb l h t s ps) = stopNumber ps"
  "flags (doSmallPrime fb l h t s ps) = flags ps"
  "sieveSize (doSmallPrime fb l h t s ps) = sieveSize ps"
  by (simp_all add: doSmallPrime_def Let_def)

lemma doSmallPrime_printed:
  "printed (doSmallPrime fb l h t s ps) =
     printed ps @ (if in_interval (startNumber ps) (stopNumber ps) (l, h, t, s)
                      \<and> flags ps AND push_bit (unat t) (PRINT_PRIMES fb) \<noteq> 0
                   then [s] else [])"
  by (simp add: doSmallPrime_def Let_def in_interval_def)

lemma doSmallPrime_callback_args:
  "callback_args (doSmallPrime fb l h t s ps) =
     callback_args ps @ (if in_interval (startNumber ps) (stopNumber ps) (l, h, t, s)
                            \<and> flags ps AND CALLBACK_PRIMES fb \<noteq> 0
                         then [first_char_minus_0 s] else [])"
  by (simp add: doSmallPrime_def Let_def in_interval_def)

lemma doSmallPrime_counts:
  "counts (doSmallPrime fb l h t s ps) =
     (if in_interval (startNumber ps) (stopNumber ps) (l, h, t, s)
         \<and> flags ps AND push_bit (unat t) (COUNT_PRIMES fb) \<noteq> 0
      then (counts ps)[unat t := counts ps ! unat t + 1] else counts ps)"
  by (simp add: doSmallPrime_def Let_def in_interval_def)

lemma doSmallPrime_counts_length [simp]:
  "length (counts (doSmallPrime fb l h t s ps)) = length (counts ps)"
  by (simp add: doSmallPrime_counts)

lemma doSmallPrime_counts_nth:
  "counts (doSmallPrime fb l h t s ps) ! k =
     counts ps ! k + (if unat t = k \<and> in_interval (startNumber ps) (stopNumber ps) (l, h, t, s)
                         \<and> flags ps AND push_bit (unat t) (COUNT_PRIMES fb) \<noteq> 0
                      then 1 else 0)"
  if "k < length (counts ps)"
proof (cases "unat t = k")
  case True
  then show ?thesis using that by (simp add: doSmallPrime_counts)
next
  case False
  then show ?thesis by (simp add: doSmallPrime_counts)
qed

lemma not_in_interval_above_5:
  "\<not> start \<le> 5 \<Longrightarrow> e \<in> set small_prime_list \<Longrightarrow> \<not> in_interval start stop e"
  by (auto simp: small_prime_list_def in_interval_def word_le_nat_alt)

lemma filter_eq_Nil_all: "(\<And>x. x \<in> set xs \<Longrightarrow> \<not> P x) \<Longrightarrow> filter P xs = []"
  by (induction xs) auto

lemma map_filter_Cons:
  "map f (filter P (x # xs)) = (if P x then [f x] else []) @ map f (filter P xs)"
  by simp

lemma small_primes_same [simp]:
  "startNumber (small_primes fb ps) = startNumber ps"
  "stopNumber (small_primes fb ps) = stopNumber ps"
  "flags (small_primes fb ps) = flags ps"
  "sieveSize (small_primes fb ps) = sieveSize ps"
  by (simp_all add: small_primes_def Let_def)

lemma small_primes_foldl:
  "small_primes fb ps =
     (if startNumber ps \<le> 5
      then foldl (\<lambda>p (l, h, t, s). doSmallPrime fb l h t s p) ps small_prime_list
      else ps)"
  by (simp add: small_primes_def small_prime_list_def Let_def)

lemma foldl_doSmallPrime_same [simp]:
  "startNumber (foldl (\<lambda>p (l, h, t, s). doSmallPrime fb l h t s p) ps es) = startNumber ps"
  "stopNumber (foldl (\<lambda>p (l, h, t, s). doSmallPrime fb l h t s p) ps es) = stopNumber ps"
  "flags (foldl (\<lambda>p (l, h, t, s). doSmallPrime fb l h t s p) ps es) = flags ps"
  "length (counts (foldl (\<lambda>p (l, h, t, s). doSmallPrime fb l h t s p) ps es)) = length (counts ps)"
  by (induction es arbitrary: ps; simp add: split_def)+

lemma foldl_doSmallPrime_printed:
  "printed (foldl (\<lambda>p (l, h, t, s). doSmallPrime fb l h t s p) ps es) =
     printed ps @ map (\<lambda>(l, h, t, s). s)
       (filter (\<lambda>(l, h, t, s). in_interval (startNumber ps) (stopNumber ps) (l, h, t, s)
                  \<and> flags ps AND push_bit (unat t) (PRINT_PRIMES fb) \<noteq> 0) es)"
proof (induction es arbitrary: ps)
  case Nil
  show ?case by simp
next
  case (Cons e es)
  obtain l h t s where e: "e = (l, h, t, s)" by (cases e) auto
  show ?case unfolding e using Cons.IH [of "doSmallPrime fb l h t s ps"]
    by (simp add: doSmallPrime_printed)
qed

lemma foldl_doSmallPrime_callback_args:
  "callback_args (foldl (\<lambda>p (l, h, t, s). doSmallPrime fb l h t s p) ps es) =
     callback_args ps @ map (\<lambda>(l, h, t, s). first_char_minus_0 s)
       (filter (\<lambda>e. in_interval (startNumber ps) (stopNumber ps) e
                  \<and> flags ps AND CALLBACK_PRIMES fb \<noteq> 0) es)"
proof (induction es arbitrary: ps)
  case Nil
  show ?case by simp
next
  case (Cons e es)
  obtain l h t s where e: "e = (l, h, t, s)" by (cases e) auto
  show ?case unfolding e using Cons.IH [of "doSmallPrime fb l h t s ps"]
    by (simp add: doSmallPrime_callback_args)
qed

lemma small_primes_printed:
  "printed (small_primes fb ps) =
     printed ps @ map (\<lambda>(l, h, t, s). s)
       (filter (\<lambda>(l, h, t, s). in_interval (startNumber ps) (stopNumber ps) (l, h, t, s)
                  \<and> flags ps AND push_bit (unat t) (PRINT_PRIMES fb) \<noteq> 0) small_prime_list)"
proof (cases "startNumber ps \<le> 5")
  case True
  with foldl_doSmallPrime_printed show ?thesis
    by (simp only: small_primes_foldl if_True)
next
  case False
  have "filter (\<lambda>(l, h, t, s). in_interval (startNumber ps) (stopNumber ps) (l, h, t, s)
                  \<and> flags ps AND push_bit (unat t) (PRINT_PRIMES fb) \<noteq> 0) small_prime_list = []"
    by (rule filter_eq_Nil_all) (use not_in_interval_above_5 [OF False] in auto)
  with False show ?thesis by (simp add: small_primes_def)
qed

lemma small_primes_callback_args:
  "callback_args (small_primes fb ps) =
     callback_args ps @ map (\<lambda>(l, h, t, s). first_char_minus_0 s)
       (filter (\<lambda>e. in_interval (startNumber ps) (stopNumber ps) e
                  \<and> flags ps AND CALLBACK_PRIMES fb \<noteq> 0) small_prime_list)"
proof (cases "startNumber ps \<le> 5")
  case True
  with foldl_doSmallPrime_callback_args show ?thesis
    by (simp only: small_primes_foldl if_True)
next
  case False
  have "filter (\<lambda>e. in_interval (startNumber ps) (stopNumber ps) e
                  \<and> flags ps AND CALLBACK_PRIMES fb \<noteq> 0) small_prime_list = []"
    by (rule filter_eq_Nil_all) (use not_in_interval_above_5 [OF False] in auto)
  with False show ?thesis by (simp add: small_primes_def)
qed

lemma length_filter_Cons:
  "length (filter P (x # xs)) = (if P x then 1 else 0) + length (filter P xs)"
  by simp

lemma small_primes_counts_length [simp]:
  "length (counts (small_primes fb ps)) = length (counts ps)"
  by (simp add: small_primes_def Let_def)

lemma foldl_doSmallPrime_counts_nth:
  assumes "k < length (counts ps)"
  shows "counts (foldl (\<lambda>p (l, h, t, s). doSmallPrime fb l h t s p) ps es) ! k =
     counts ps ! k + of_nat (length
       (filter (\<lambda>(l, h, t, s). unat t = k \<and> in_interval (startNumber ps) (stopNumber ps) (l, h, t, s)
                  \<and> flags ps AND push_bit (unat t) (COUNT_PRIMES fb) \<noteq> 0) es))"
  using assms
proof (induction es arbitrary: ps)
  case Nil
  show ?case by simp
next
  case (Cons e es)
  obtain l h t s where e: "e = (l, h, t, s)" by (cases e) auto
  from Cons.prems have k: "k < length (counts (doSmallPrime fb l h t s ps))" by simp
  show ?case
    unfolding e using Cons.IH [OF k] Cons.prems
    by (auto simp add: doSmallPrime_counts_nth)
qed

lemma small_primes_counts_nth:
  assumes "k < length (counts ps)"
  shows "counts (small_primes fb ps) ! k =
     counts ps ! k + of_nat (length
       (filter (\<lambda>(l, h, t, s). unat t = k \<and> in_interval (startNumber ps) (stopNumber ps) (l, h, t, s)
                  \<and> flags ps AND push_bit (unat t) (COUNT_PRIMES fb) \<noteq> 0) small_prime_list))"
proof (cases "startNumber ps \<le> 5")
  case True
  with foldl_doSmallPrime_counts_nth [OF assms] show ?thesis
    by (simp only: small_primes_foldl if_True)
next
  case False
  have "filter (\<lambda>(l, h, t, s). unat t = k \<and> in_interval (startNumber ps) (stopNumber ps) (l, h, t, s)
                  \<and> flags ps AND push_bit (unat t) (COUNT_PRIMES fb) \<noteq> 0) small_prime_list = []"
    by (rule filter_eq_Nil_all) (use not_in_interval_above_5 [OF False] in auto)
  with False show ?thesis by (simp add: small_primes_def)
qed

lemma U32SQRT_unat_less: "U32SQRT (unat (w :: 64 word)) < 2 ^ 32"
proof (rule U32SQRT_less)
  have "unat w < 2 ^ 64" using unsigned_less [of w] by simp
  then show "unat w < 2 ^ 32 * 2 ^ 32" by simp
qed

lemma sieving_numbers_Some: "\<exists>ns. sieving_numbers en stop = Some ns"
proof (cases "unat (eliminateUpTo en) < U32SQRT (unat stop)")
  case True
  from generate_sieving_primes_Some [OF U32SQRT_unat_less, of stop "unat (eliminateUpTo en)"]
  obtain p sv where
    "generate_sieving_primes (generator_getStopNumber stop) (unat (eliminateUpTo en)) = Some (p, sv)"
    unfolding generator_getStopNumber_def by blast
  with True show ?thesis by (simp add: sieving_numbers_def)
next
  case False
  then show ?thesis by (simp add: sieving_numbers_def)
qed

lemma sieve_Inr:
  assumes "\<not> stopNumber ps < startNumber ps"
  shows "\<exists>ps'. sieve fb en ps = Inr ps'"
proof -
  obtain ns where ns: "sieving_numbers en (stopNumber ps) = Some ns"
    using sieving_numbers_Some by blast
  with assms show ?thesis by (simp add: sieve_def Let_def reset_def)
qed

lemma range_limit_value: "unat range_limit = 18446744030759878665"
  by (simp add: range_limit_def UINT64_MAX_def UINT32_MAX_def)

section \<open>Trial division, range errors and the small primes\<close>

lemma reset_same [simp]:
  "startNumber (reset ps) = startNumber ps"
  "stopNumber (reset ps) = stopNumber ps"
  "flags (reset ps) = flags ps"
  "sieveSize (reset ps) = sieveSize ps"
  "printed (reset ps) = printed ps"
  "callback_args (reset ps) = callback_args ps"
  "counts (reset ps) = replicate COUNTS_SIZE 0"
  by (simp_all add: reset_def)

text \<open>
  C9. When the stop number of the generator is a 32-bit value, the trial-division loop
  of \<^verbatim>\<open>sieve()\<close> never reads \<^verbatim>\<open>primes16Bit[i]\<close> past the end of the vector. For every
  state in which the loop is entered with a candidate \<open>n \<le> stop\<close>, the inner scan stops
  at an index inside the vector, and the element there is a prime that exceeds the
  square root of \<open>n\<close> or divides \<open>n\<close>. Hence the whole run returns its final vector (the
  model returns \<open>None\<close> only for a read past the end). That vector is ascending, holds
  only primes from 3 on and holds every odd prime up to \<^verbatim>\<open>keep\<close>, the fourth root of the
  generator's stop number.
\<close>

theorem trial_division_within_bounds:
  assumes "generatorStop < 2 ^ 32"
  shows "(\<forall>n primes16Bit sieved.
            loop_head (U32SQRT generatorStop) (U32SQRT (U32SQRT generatorStop)) eliminate
              n primes16Bit sieved \<and> n \<le> U32SQRT generatorStop \<longrightarrow>
            (\<exists>i. scan primes16Bit (U32SQRT n) n 0 = Some i \<and> i < length primes16Bit
                 \<and> is_prime (primes16Bit ! i)
                 \<and> (U32SQRT n < primes16Bit ! i \<or> primes16Bit ! i dvd n)))
       \<and> (\<exists>primes16Bit sieved.
            generate_sieving_primes generatorStop eliminate = Some (primes16Bit, sieved)
            \<and> sorted primes16Bit \<and> (\<forall>p \<in> set primes16Bit. is_prime p \<and> 3 \<le> p)
            \<and> (\<forall>q. is_prime q \<and> 3 \<le> q \<and> q \<le> U32SQRT (U32SQRT generatorStop)
                   \<longrightarrow> q \<in> set primes16Bit))"
proof -
  from assms have b: "U32SQRT generatorStop < 65536" by (rule U32SQRT_less_65536)
  have "\<forall>n primes16Bit sieved.
            loop_head (U32SQRT generatorStop) (U32SQRT (U32SQRT generatorStop)) eliminate
              n primes16Bit sieved \<and> n \<le> U32SQRT generatorStop \<longrightarrow>
            (\<exists>i. scan primes16Bit (U32SQRT n) n 0 = Some i \<and> i < length primes16Bit
                 \<and> is_prime (primes16Bit ! i)
                 \<and> (U32SQRT n < primes16Bit ! i \<or> primes16Bit ! i dvd n))"
    using loop_head_scan [OF _ b refl] by blast
  then show ?thesis using generate_sieving_primes_Some [OF assms, of eliminate] by (rule conjI)
qed

text \<open>
  C9, instance: generator stop number 1000, hence \<^verbatim>\<open>stop\<close> = 31 and \<^verbatim>\<open>keep\<close> = 5. The
  loop is entered with the candidate 7 and the vector 3, 5, where the scan stops at
  index 0: 3 exceeds the square root of 7.
\<close>

theorem trial_division_within_bounds_witness:
  "(1000 :: nat) < 2 ^ 32
   \<and> generate_sieving_primes 1000 7
       = Some ([3, 5, 7, 11, 13, 17, 19, 23], [11, 13, 17, 19, 23, 29, 31])
   \<and> U32SQRT 1000 = 31 \<and> U32SQRT (U32SQRT 1000) = 5
   \<and> loop_head 31 5 7 7 [3, 5] []
   \<and> scan [3, 5] (U32SQRT 7) 7 0 = Some 0"
proof -
  have h: "(1000 :: nat) < 2 ^ 32" by simp
  have e: "generate_sieving_primes 1000 7
       = Some ([3, 5, 7, 11, 13, 17, 19, 23], [11, 13, 17, 19, 23, 29, 31])"
    by (simp add: generate_sieving_primes_def trial_division.simps trial_division_body_def
        scan.simps U32SQRT.simps Let_def)
  have k: "U32SQRT 1000 = 31" "U32SQRT 31 = 5"
    by (simp_all add: U32SQRT.simps Let_def)
  have bd: "trial_division_body 5 7 5 [3] [] = Some ([3, 5], [])"
    by (simp add: trial_division_body_def scan.simps U32SQRT.simps Let_def)
  have le: "(5 :: nat) \<le> 31" by simp
  from loop_head.start [of 31 5 7] le bd have l: "loop_head 31 5 7 (5 + 2) [3, 5] []"
    by (rule loop_head.step)
  then have l7: "loop_head 31 5 7 7 [3, 5] []" by simp
  have s: "scan [3, 5] (U32SQRT 7) 7 0 = Some 0"
    by (simp add: scan.simps U32SQRT.simps Let_def)
  note t = trial_division_within_bounds [OF h, of 7, THEN conjunct1, unfolded k, rule_format,
      of 7 "[3, 5]" "[]"]
  have "7 \<le> (31 :: nat)" by simp
  with l7 have "loop_head 31 5 7 7 [3, 5] [] \<and> 7 \<le> (31 :: nat)" by (rule conjI)
  then have "\<exists>i. scan [3, 5] (U32SQRT 7) 7 0 = Some i \<and> i < length [3, 5 :: nat]
      \<and> is_prime ([3, 5] ! i) \<and> (U32SQRT 7 < [3, 5] ! i \<or> [3, 5 :: nat] ! i dvd (7 :: nat))"
    by (rule t)
  with h e k l7 s show ?thesis by simp
qed

text \<open>
  C2 (amended). \<^verbatim>\<open>getPrimeCount(start, stop)\<close>, which sets the range and calls
  \<^verbatim>\<open>sieve()\<close>, throws \<^verbatim>\<open>std::invalid_argument\<close> when \<open>start\<close> is at least the limit
  \<open>(2^64 - 1) - 10 * (2^32 - 1)\<close>, else when \<open>stop\<close> is at least that limit, else when
  \<open>stop < start\<close>; for \<open>start \<le> stop\<close> below the limit it throws nothing. The limit is one
  less than the bound \<open>2^64 - 10 * (2^32 - 1)\<close>.
\<close>

theorem range_error_iff:
  "(range_limit \<le> start \<longrightarrow>
      getPrimeCount fb en start stop ps
        = Inl (invalid_argument ''START must be < (2^64-1) - (2^32-1) * 10''))
   \<and> (start < range_limit \<and> range_limit \<le> stop \<longrightarrow>
      getPrimeCount fb en start stop ps
        = Inl (invalid_argument ''STOP must be < (2^64-1) - (2^32-1) * 10''))
   \<and> (start < range_limit \<and> stop < range_limit \<and> stop < start \<longrightarrow>
      getPrimeCount fb en start stop ps = Inl (invalid_argument ''STOP must be >= START''))
   \<and> (start \<le> stop \<and> stop < range_limit \<longrightarrow> \<not> isl (getPrimeCount fb en start stop ps))
   \<and> unat range_limit = (2 ^ 64 - 1) - 10 * (2 ^ 32 - 1)"
proof -
  have a: "range_limit \<le> start \<longrightarrow>
      getPrimeCount fb en start stop ps
        = Inl (invalid_argument ''START must be < (2^64-1) - (2^32-1) * 10'')"
    by (simp add: getPrimeCount_def setStartNumber_def)
  have b: "start < range_limit \<and> range_limit \<le> stop \<longrightarrow>
      getPrimeCount fb en start stop ps
        = Inl (invalid_argument ''STOP must be < (2^64-1) - (2^32-1) * 10'')"
  proof
    assume h: "start < range_limit \<and> range_limit \<le> stop"
    then have "\<not> range_limit \<le> start" by (simp add: not_le)
    with h show "getPrimeCount fb en start stop ps
        = Inl (invalid_argument ''STOP must be < (2^64-1) - (2^32-1) * 10'')"
      by (simp add: getPrimeCount_def setStartNumber_def setStopNumber_def)
  qed
  have c: "start < range_limit \<and> stop < range_limit \<and> stop < start \<longrightarrow>
      getPrimeCount fb en start stop ps = Inl (invalid_argument ''STOP must be >= START'')"
  proof
    assume h: "start < range_limit \<and> stop < range_limit \<and> stop < start"
    then have "\<not> range_limit \<le> start" "\<not> range_limit \<le> stop" by (simp_all add: not_le)
    with h show "getPrimeCount fb en start stop ps = Inl (invalid_argument ''STOP must be >= START'')"
      by (simp add: getPrimeCount_def setStartNumber_def setStopNumber_def setFlags_def sieve_def)
  qed
  have d: "start \<le> stop \<and> stop < range_limit \<longrightarrow> \<not> isl (getPrimeCount fb en start stop ps)"
  proof
    assume h: "start \<le> stop \<and> stop < range_limit"
    then have s: "\<not> range_limit \<le> start" "\<not> range_limit \<le> stop" by (auto simp: not_le)
    define ps2 where "ps2 = setFlags (COUNT_PRIMES fb) (ps\<lparr>startNumber := start, stopNumber := stop\<rparr>)"
    from h have "\<not> stopNumber ps2 < startNumber ps2" by (simp add: ps2_def setFlags_def not_less)
    from sieve_Inr [OF this] obtain ps3 where "sieve fb en ps2 = Inr ps3" ..
    with s show "\<not> isl (getPrimeCount fb en start stop ps)"
      by (simp add: getPrimeCount_def setStartNumber_def setStopNumber_def ps2_def)
  qed
  have e: "unat range_limit = (2 ^ 64 - 1) - 10 * (2 ^ 32 - 1)"
    by (simp add: range_limit_value)
  from a b c d e show ?thesis by (simp only:) 
qed

text \<open>
  C2, instances at the limit, below it, and with the bounds exchanged.
\<close>

theorem range_error_iff_witness:
  "getPrimeCount example_flags example_engine 18446744030759878665 18446744030759878665 example_sieve
     = Inl (invalid_argument ''START must be < (2^64-1) - (2^32-1) * 10'')
   \<and> getPrimeCount example_flags example_engine 0 18446744030759878665 example_sieve
     = Inl (invalid_argument ''STOP must be < (2^64-1) - (2^32-1) * 10'')
   \<and> getPrimeCount example_flags example_engine 9 8 example_sieve
     = Inl (invalid_argument ''STOP must be >= START'')
   \<and> \<not> isl (getPrimeCount example_flags example_engine 18446744030759878664 18446744030759878664
               example_sieve)"
proof -
  have v: "range_limit = 18446744030759878665"
    by (simp add: range_limit_def UINT64_MAX_def UINT32_MAX_def)
  show ?thesis
    using range_error_iff [of 18446744030759878665 example_flags example_engine
        18446744030759878665 example_sieve]
      range_error_iff [of 0 example_flags example_engine 18446744030759878665 example_sieve]
      range_error_iff [of 9 example_flags example_engine 8 example_sieve]
      range_error_iff [of 18446744030759878664 example_flags example_engine
        18446744030759878664 example_sieve]
    by (simp add: v)
qed

text \<open>
  C2 as stated fails: \<open>start = stop = 2^64 - 10 * (2^32 - 1) - 1\<close> is strictly below
  the bound of the claim and \<open>start \<le> stop\<close>, yet the call throws.
\<close>

theorem range_bound_counterexample:
  "unat (18446744030759878665 :: 64 word) < 2 ^ 64 - 10 * (2 ^ 32 - 1)
   \<and> getPrimeCount example_flags example_engine 18446744030759878665 18446744030759878665
        example_sieve
      = Inl (invalid_argument ''START must be < (2^64-1) - (2^32-1) * 10'')"
  by (simp add: getPrimeCount_def setStartNumber_def range_limit_def UINT64_MAX_def UINT32_MAX_def)

text \<open>
  C3 (amended). The explicit list of \<^verbatim>\<open>sieve()\<close> has the eight entries 2, 3, 5, (3, 5),
  (5, 7), (5, 7, 11), (5, 7, 11, 13) and (5, 7, 11, 13, 17). It prints, in this order,
  exactly the entries that lie in the interval (least element \<open>\<ge>\<close> start, greatest
  element \<open>\<le>\<close> stop) and whose \<^verbatim>\<open>PRINT\<close> flag is set, and it adds to each counter the
  number of entries of that type that lie in the interval and whose \<^verbatim>\<open>COUNT\<close> flag is
  set. There is no entry (2, 3) and none of the sizes 6 and 7.
\<close>

theorem small_primes_emits_list:
  "printed (small_primes fb ps) =
     printed ps @ map (\<lambda>(l, h, t, s). s)
       (filter (\<lambda>(l, h, t, s). in_interval (startNumber ps) (stopNumber ps) (l, h, t, s)
                  \<and> flags ps AND push_bit (unat t) (PRINT_PRIMES fb) \<noteq> 0) small_prime_list)
   \<and> (\<forall>k < length (counts ps).
        counts (small_primes fb ps) ! k =
          counts ps ! k + of_nat (length
            (filter (\<lambda>(l, h, t, s). unat t = k
                       \<and> in_interval (startNumber ps) (stopNumber ps) (l, h, t, s)
                       \<and> flags ps AND push_bit (unat t) (COUNT_PRIMES fb) \<noteq> 0) small_prime_list)))"
  using small_primes_printed [of fb ps] small_primes_counts_nth [of _ ps fb] by blast

text \<open>
  C3, instance: twins counted and printed on the interval from 3 to 10.
\<close>

theorem small_primes_emits_list_witness:
  "(1 :: nat) < length (counts (example_sieve\<lparr>startNumber := 3, stopNumber := 10, flags := 258\<rparr>))
   \<and> printed (small_primes example_flags (example_sieve\<lparr>startNumber := 3, stopNumber := 10, flags := 258\<rparr>))
     = [''(3, 5)'', ''(5, 7)'']
   \<and> counts (small_primes example_flags (example_sieve\<lparr>startNumber := 3, stopNumber := 10, flags := 258\<rparr>)) ! 1
     = 2"
proof -
  define X where "X = example_sieve\<lparr>startNumber := 3, stopNumber := 10, flags := 258\<rparr>"
  have s: "startNumber X = 3" "stopNumber X = 10" "flags X = 258" "printed X = []"
    "counts X = [0, 0, 0, 0, 0, 0, 0]"
    by (simp_all add: X_def example_sieve_def)
  have l: "1 < length (counts X)" by (simp add: s)
  have fp: "filter (\<lambda>(l, h, t, s). in_interval 3 10 (l, h, t, s)
                  \<and> 258 AND push_bit (unat t) (PRINT_PRIMES example_flags) \<noteq> 0) small_prime_list
          = [(3, 5, 1, ''(3, 5)''), (5, 7, 1, ''(5, 7)'')]"
    by (simp add: small_prime_list_def in_interval_def example_flags_def)
  have fc: "filter (\<lambda>(l, h, t, s). unat t = 1 \<and> in_interval 3 10 (l, h, t, s)
                  \<and> 258 AND push_bit (unat t) (COUNT_PRIMES example_flags) \<noteq> 0) small_prime_list
          = [(3, 5, 1, ''(3, 5)''), (5, 7, 1, ''(5, 7)'')]"
    by (simp add: small_prime_list_def in_interval_def example_flags_def)
  note t = small_primes_emits_list [of example_flags X]
  from t have p: "printed (small_primes example_flags X) =
     printed X @ map (\<lambda>(l, h, t, s). s)
       (filter (\<lambda>(l, h, t, s). in_interval (startNumber X) (stopNumber X) (l, h, t, s)
                  \<and> flags X AND push_bit (unat t) (PRINT_PRIMES example_flags) \<noteq> 0) small_prime_list)"
    by (rule conjunct1)
  from t l have c: "counts (small_primes example_flags X) ! 1 =
          counts X ! 1 + of_nat (length
            (filter (\<lambda>(l, h, t, s). unat t = 1
                       \<and> in_interval (startNumber X) (stopNumber X) (l, h, t, s)
                       \<and> flags X AND push_bit (unat t) (COUNT_PRIMES example_flags) \<noteq> 0) small_prime_list))"
    by blast
  from p c have "printed (small_primes example_flags X) = [''(3, 5)'', ''(5, 7)'']
      \<and> counts (small_primes example_flags X) ! 1 = 2"
    unfolding s fp fc by simp
  with l show ?thesis unfolding X_def by simp
qed

text \<open>
  C3 as stated fails: on the interval from 0 to 10 with the twin flags set the pair
  (2, 3) has its least element \<open>\<ge>\<close> start and its greatest \<open>\<le>\<close> stop, but the list prints
  and counts the two twins (3, 5) and (5, 7) only.
\<close>

theorem small_primes_no_pair_2_3_counterexample:
  "(0 :: 64 word) \<le> 2 \<and> (3 :: 64 word) \<le> 10
   \<and> printed (small_primes example_flags
        (example_sieve\<lparr>startNumber := 0, stopNumber := 10, flags := 258\<rparr>))
      = [''(3, 5)'', ''(5, 7)'']
   \<and> counts (small_primes example_flags
        (example_sieve\<lparr>startNumber := 0, stopNumber := 10, flags := 258\<rparr>)) ! 1
      = 2"
proof -
  define X where "X = example_sieve\<lparr>startNumber := 0, stopNumber := 10, flags := 258\<rparr>"
  have s: "startNumber X = 0" "stopNumber X = 10" "flags X = 258" "printed X = []"
    "counts X = [0, 0, 0, 0, 0, 0, 0]"
    by (simp_all add: X_def example_sieve_def)
  have l: "1 < length (counts X)" by (simp add: s)
  have fp: "filter (\<lambda>(l, h, t, s). in_interval 0 10 (l, h, t, s)
                  \<and> 258 AND push_bit (unat t) (PRINT_PRIMES example_flags) \<noteq> 0) small_prime_list
          = [(3, 5, 1, ''(3, 5)''), (5, 7, 1, ''(5, 7)'')]"
    by (simp add: small_prime_list_def in_interval_def example_flags_def)
  have fc: "filter (\<lambda>(l, h, t, s). unat t = 1 \<and> in_interval 0 10 (l, h, t, s)
                  \<and> 258 AND push_bit (unat t) (COUNT_PRIMES example_flags) \<noteq> 0) small_prime_list
          = [(3, 5, 1, ''(3, 5)''), (5, 7, 1, ''(5, 7)'')]"
    by (simp add: small_prime_list_def in_interval_def example_flags_def)
  have "printed (small_primes example_flags X) = [''(3, 5)'', ''(5, 7)'']"
    unfolding small_primes_printed s fp by simp
  moreover have "counts (small_primes example_flags X) ! 1 = 2"
    unfolding small_primes_counts_nth [OF l] s fc by simp
  ultimately show ?thesis unfolding X_def by simp
qed

section \<open>Callbacks for the small primes\<close>

lemma first_char_minus_0_paren:
  "first_char_minus_0 (CHR ''('' # cs) = - 8"
  by (simp add: first_char_minus_0_def)

text \<open>
  C10. \<^verbatim>\<open>generatePrimes(start, stop, callback)\<close> with a callback, \<open>start \<le> 3\<close>,
  \<open>5 \<le> stop\<close> below the limit and a non-zero flag \<^verbatim>\<open>CALLBACK_PRIMES\<close> returns normally and
  has called the callback, before anything the finder passes to it, with: 2 if
  \<open>start \<le> 2\<close>; 3; 5; the value for "(3, 5)"; and one value for each of "(5, 7)",
  "(5, 7, 11)", "(5, 7, 11, 13)", "(5, 7, 11, 13, 17)" whose greatest element is \<open>\<le>\<close> stop.
  The value for a tuplet is the character \<^verbatim>\<open>'('\<close> minus the character \<^verbatim>\<open>'0'\<close>, that is -8,
  passed as the 64-bit number \<open>2^64 - 8\<close>.
\<close>

theorem generatePrimes_small_callbacks:
  assumes "CALLBACK_PRIMES fb \<noteq> 0" and "start \<le> 3" and "5 \<le> stop" and "stop < range_limit"
  shows "\<exists>ps' rest. generatePrimes fb en start stop False ps = Inr ps'
     \<and> callback_args ps' =
         callback_args ps @ (if start \<le> 2 then [2] else [])
           @ [3, 5, first_char_minus_0 ''(3, 5)'']
           @ (if 7 \<le> stop then [first_char_minus_0 ''(5, 7)''] else [])
           @ (if 11 \<le> stop then [first_char_minus_0 ''(5, 7, 11)''] else [])
           @ (if 13 \<le> stop then [first_char_minus_0 ''(5, 7, 11, 13)''] else [])
           @ (if 17 \<le> stop then [first_char_minus_0 ''(5, 7, 11, 13, 17)''] else [])
           @ rest
     \<and> first_char_minus_0 ''(3, 5)'' = word_of_int (of_char CHR ''('' - of_char CHR ''0'')
     \<and> unat (first_char_minus_0 ''(3, 5)'') = 2 ^ 64 - 8
     \<and> first_char_minus_0 ''(5, 7)'' = first_char_minus_0 ''(3, 5)''
     \<and> first_char_minus_0 ''(5, 7, 11)'' = first_char_minus_0 ''(3, 5)''
     \<and> first_char_minus_0 ''(5, 7, 11, 13)'' = first_char_minus_0 ''(3, 5)''
     \<and> first_char_minus_0 ''(5, 7, 11, 13, 17)'' = first_char_minus_0 ''(3, 5)''"
proof -
  have lim: "(5 :: 64 word) < range_limit"
    by (simp add: range_limit_def UINT64_MAX_def UINT32_MAX_def)
  from assms(2) have s5: "start \<le> 5" by (rule order_trans) simp
  from assms(3) have t3: "3 \<le> stop" and t2: "2 \<le> stop"
    by (auto elim: order_trans [rotated])
  from s5 lim have ok1: "\<not> range_limit \<le> start" by (simp add: not_le)
  from assms(4) have ok2: "\<not> range_limit \<le> stop" by (simp add: not_le)
  from assms(2) t3 have ok3: "\<not> stop < start" by (simp add: not_less order_trans [of start 3 stop])
  define ps2 where "ps2 = setFlags (CALLBACK_PRIMES fb) (ps\<lparr>startNumber := start, stopNumber := stop\<rparr>)"
  have f2: "startNumber ps2 = start" "stopNumber ps2 = stop" "flags ps2 = CALLBACK_PRIMES fb"
    "callback_args ps2 = callback_args ps"
    by (simp_all add: ps2_def setFlags_def)
  have g: "generatePrimes fb en start stop False ps = sieve fb en ps2"
    using ok1 ok2 by (simp add: generatePrimes_def setStartNumber_def setStopNumber_def ps2_def)
  define psr where "psr = small_primes fb (reset ps2)"
  have fl: "filter (\<lambda>e. in_interval start stop e \<and> CALLBACK_PRIMES fb AND CALLBACK_PRIMES fb \<noteq> 0)
              small_prime_list
      = (if start \<le> 2 then [(2, 2, 0, ''2'')] else [])
        @ [(3, 3, 0, ''3''), (5, 5, 0, ''5''), (3, 5, 1, ''(3, 5)'')]
        @ (if 7 \<le> stop then [(5, 7, 1, ''(5, 7)'')] else [])
        @ (if 11 \<le> stop then [(5, 11, 2, ''(5, 7, 11)'')] else [])
        @ (if 13 \<le> stop then [(5, 13, 3, ''(5, 7, 11, 13)'')] else [])
        @ (if 17 \<le> stop then [(5, 17, 4, ''(5, 7, 11, 13, 17)'')] else [])"
    using assms(1,2,3) s5 t3 t2 by (simp add: small_prime_list_def in_interval_def)
  have cr: "callback_args psr =
         callback_args ps @ (if start \<le> 2 then [2] else [])
           @ [3, 5, first_char_minus_0 ''(3, 5)'']
           @ (if 7 \<le> stop then [first_char_minus_0 ''(5, 7)''] else [])
           @ (if 11 \<le> stop then [first_char_minus_0 ''(5, 7, 11)''] else [])
           @ (if 13 \<le> stop then [first_char_minus_0 ''(5, 7, 11, 13)''] else [])
           @ (if 17 \<le> stop then [first_char_minus_0 ''(5, 7, 11, 13, 17)''] else [])"
    unfolding psr_def small_primes_callback_args reset_same f2 fl
    by (simp add: first_char_minus_0_def)
  have fr: "startNumber psr = start" "stopNumber psr = stop"
    by (simp_all add: psr_def f2)
  have "\<exists>ps' rest. sieve fb en ps2 = Inr ps' \<and> callback_args ps' = callback_args psr @ rest"
  proof (cases "7 \<le> stop")
    case True
    obtain ns where ns: "sieving_numbers en stop = Some ns"
      using sieving_numbers_Some by blast
    with True ok3 show ?thesis
      by (simp add: sieve_def Let_def f2 psr_def [symmetric] fr)
  next
    case False
    with ok3 have "sieve fb en ps2 = Inr psr"
      by (simp add: sieve_def Let_def f2 psr_def [symmetric] fr)
    then show ?thesis by simp
  qed
  then obtain ps' rest where r: "sieve fb en ps2 = Inr ps'" "callback_args ps' = callback_args psr @ rest"
    by blast
  have v: "first_char_minus_0 ''(3, 5)'' = word_of_int (of_char CHR ''('' - of_char CHR ''0'')"
    "unat (first_char_minus_0 ''(3, 5)'') = 2 ^ 64 - 8"
    "first_char_minus_0 ''(5, 7)'' = first_char_minus_0 ''(3, 5)''"
    "first_char_minus_0 ''(5, 7, 11)'' = first_char_minus_0 ''(3, 5)''"
    "first_char_minus_0 ''(5, 7, 11, 13)'' = first_char_minus_0 ''(3, 5)''"
    "first_char_minus_0 ''(5, 7, 11, 13, 17)'' = first_char_minus_0 ''(3, 5)''"
    by (simp_all add: first_char_minus_0_def)
  from r(2) have "callback_args ps' =
         callback_args ps @ (if start \<le> 2 then [2] else [])
           @ [3, 5, first_char_minus_0 ''(3, 5)'']
           @ (if 7 \<le> stop then [first_char_minus_0 ''(5, 7)''] else [])
           @ (if 11 \<le> stop then [first_char_minus_0 ''(5, 7, 11)''] else [])
           @ (if 13 \<le> stop then [first_char_minus_0 ''(5, 7, 11, 13)''] else [])
           @ (if 17 \<le> stop then [first_char_minus_0 ''(5, 7, 11, 13, 17)''] else [])
           @ rest"
    unfolding cr by (simp only: append_assoc)
  with r(1) g v show ?thesis by (simp only:) blast
qed

section \<open>Construction of CpuInfo\<close>

lemma cache_index_std:
  "cache_index pr i c = (Some e, c1) \<Longrightarrow> \<exists>m. e = std_exception m"
  by (auto simp: cache_index_def Let_def split: sum.splits if_splits)

lemma cache_loop_std:
  "cache_loop pr is c = (Some e, c1) \<Longrightarrow> \<exists>m. e = std_exception m"
proof (induction "is" arbitrary: c)
  case Nil
  then show ?case by simp
next
  case (Cons i "is")
  then show ?case
    by (auto split: prod.splits option.splits dest: cache_index_std)
qed

lemma init_std: "init pr c = (Some e, c1) \<Longrightarrow> \<exists>m. e = std_exception m"
  by (auto simp: init_def Let_def simp del: cache_loop.simps split: sum.splits dest: cache_loop_std)

lemma list_update_changed:
  assumes "xs[l := v] ! k \<noteq> xs ! k"
  shows "l = k \<and> xs[l := v] ! k = v"
proof (cases "l = k")
  case True
  show ?thesis
  proof (cases "k < length xs")
    case lt: True
    with True show ?thesis by simp
  next
    case False
    with True have "xs[l := v] = xs" by (simp add: list_update_beyond)
    with assms show ?thesis by simp
  qed
next
  case False
  with assms show ?thesis by simp
qed

lemma cache_index_keeps:
  "cache_index pr i c = (x, c1) \<Longrightarrow>
     cpuCores c1 = cpuCores c \<and> cpuThreads c1 = cpuThreads c
     \<and> threadsPerCore c1 = threadsPerCore c \<and> error c1 = error c
     \<and> length (cacheSizes c1) = length (cacheSizes c)
     \<and> length (cacheSharing c1) = length (cacheSharing c)
     \<and> (\<forall>k. cacheSizes c1 ! k \<noteq> cacheSizes c ! k \<longrightarrow>
            level_probe pr i = Inr k \<and> size_probe pr i = Inr (cacheSizes c1 ! k))
     \<and> (\<forall>k. cacheSharing c1 ! k \<noteq> cacheSharing c ! k \<longrightarrow>
            level_probe pr i = Inr k \<and> shared_probe pr i = Inr (cacheSharing c1 ! k))"
  by (auto simp: cache_index_def Let_def split: sum.splits if_splits dest: list_update_changed)


lemma cache_loop_keeps:
  "cache_loop pr is c = (x, c1) \<Longrightarrow>
     cpuCores c1 = cpuCores c \<and> cpuThreads c1 = cpuThreads c
     \<and> threadsPerCore c1 = threadsPerCore c \<and> error c1 = error c
     \<and> length (cacheSizes c1) = length (cacheSizes c)
     \<and> length (cacheSharing c1) = length (cacheSharing c)
     \<and> (\<forall>k. cacheSizes c1 ! k \<noteq> cacheSizes c ! k \<longrightarrow>
            (\<exists>i \<in> set is. level_probe pr i = Inr k \<and> size_probe pr i = Inr (cacheSizes c1 ! k)))
     \<and> (\<forall>k. cacheSharing c1 ! k \<noteq> cacheSharing c ! k \<longrightarrow>
            (\<exists>i \<in> set is. level_probe pr i = Inr k \<and> shared_probe pr i = Inr (cacheSharing c1 ! k)))"
proof (induction "is" arbitrary: c)
  case Nil
  then show ?case by simp
next
  case (Cons i "is")
  obtain y c2 where ci: "cache_index pr i c = (y, c2)" by (cases "cache_index pr i c") auto
  note k = cache_index_keeps [OF ci]
  show ?case
  proof (cases y)
    case (Some e)
    with Cons.prems ci have "c1 = c2" by simp
    with k show ?thesis by auto
  next
    case None
    with Cons.prems ci have "cache_loop pr is c2 = (x, c1)" by simp
    from Cons.IH [OF this] have ih:
      "cpuCores c1 = cpuCores c2 \<and> cpuThreads c1 = cpuThreads c2
       \<and> threadsPerCore c1 = threadsPerCore c2 \<and> error c1 = error c2
       \<and> length (cacheSizes c1) = length (cacheSizes c2)
       \<and> length (cacheSharing c1) = length (cacheSharing c2)"
      and ihs: "\<And>k. cacheSizes c1 ! k \<noteq> cacheSizes c2 ! k \<Longrightarrow>
            (\<exists>i \<in> set is. level_probe pr i = Inr k \<and> size_probe pr i = Inr (cacheSizes c1 ! k))"
      and ihh: "\<And>k. cacheSharing c1 ! k \<noteq> cacheSharing c2 ! k \<Longrightarrow>
            (\<exists>i \<in> set is. level_probe pr i = Inr k \<and> shared_probe pr i = Inr (cacheSharing c1 ! k))"
      by blast+
    have a: "\<forall>k. cacheSizes c1 ! k \<noteq> cacheSizes c ! k \<longrightarrow>
            (\<exists>j \<in> set (i # is). level_probe pr j = Inr k \<and> size_probe pr j = Inr (cacheSizes c1 ! k))"
    proof (intro allI impI)
      fix k assume d: "cacheSizes c1 ! k \<noteq> cacheSizes c ! k"
      show "\<exists>j \<in> set (i # is). level_probe pr j = Inr k \<and> size_probe pr j = Inr (cacheSizes c1 ! k)"
      proof (cases "cacheSizes c1 ! k = cacheSizes c2 ! k")
        case True
        with d k show ?thesis by auto
      next
        case False
        from ihs [OF this] show ?thesis by auto
      qed
    qed
    have b: "\<forall>k. cacheSharing c1 ! k \<noteq> cacheSharing c ! k \<longrightarrow>
            (\<exists>j \<in> set (i # is). level_probe pr j = Inr k \<and> shared_probe pr j = Inr (cacheSharing c1 ! k))"
    proof (intro allI impI)
      fix k assume d: "cacheSharing c1 ! k \<noteq> cacheSharing c ! k"
      show "\<exists>j \<in> set (i # is). level_probe pr j = Inr k \<and> shared_probe pr j = Inr (cacheSharing c1 ! k)"
      proof (cases "cacheSharing c1 ! k = cacheSharing c2 ! k")
        case True
        with d k show ?thesis by auto
      next
        case False
        from ihh [OF this] show ?thesis by auto
      qed
    qed
    from ih k a b show ?thesis by (simp only:) 
  qed
qed


lemma init_keeps:
  assumes "init pr c = (x, c1)"
  shows "error c1 = error c"
    and "length (cacheSizes c1) = length (cacheSizes c)"
    and "length (cacheSharing c1) = length (cacheSharing c)"
    and "\<forall>k. cacheSizes c1 ! k \<noteq> cacheSizes c ! k \<longrightarrow>
            (\<exists>i \<in> {0, 1, 2, 3}. level_probe pr i = Inr k \<and> size_probe pr i = Inr (cacheSizes c1 ! k))"
    and "\<forall>k. cacheSharing c1 ! k \<noteq> cacheSharing c ! k \<longrightarrow>
            (\<exists>i \<in> {0, 1, 2, 3}. level_probe pr i = Inr k \<and> shared_probe pr i = Inr (cacheSharing c1 ! k))"
    and "cpuThreads c1 \<noteq> cpuThreads c \<longrightarrow> online_probe pr = Inr (cpuThreads c1)"
    and "threadsPerCore c1 \<noteq> threadsPerCore c \<longrightarrow>
           siblings_probe pr = Inr (threadsPerCore c1) \<and> (\<exists>t. online_probe pr = Inr t)"
    and "cpuCores c1 \<noteq> cpuCores c \<longrightarrow>
           (\<exists>t s. online_probe pr = Inr t \<and> siblings_probe pr = Inr s \<and> cpuCores c1 = t div s)"
    and "\<forall>m. online_probe pr = Inl m \<longrightarrow>
           x = Some (std_exception m) \<and> cpuCores c1 = cpuCores c \<and> cpuThreads c1 = cpuThreads c
           \<and> threadsPerCore c1 = threadsPerCore c \<and> cacheSizes c1 = cacheSizes c
           \<and> cacheSharing c1 = cacheSharing c"
proof -
  consider (a) m where "online_probe pr = Inl m"
    | (b) t m where "online_probe pr = Inr t" "siblings_probe pr = Inl m"
    | (c) t s where "online_probe pr = Inr t" "siblings_probe pr = Inr s"
    by (cases "online_probe pr"; cases "siblings_probe pr") auto
  then have "error c1 = error c
    \<and> length (cacheSizes c1) = length (cacheSizes c)
    \<and> length (cacheSharing c1) = length (cacheSharing c)
    \<and> (\<forall>k. cacheSizes c1 ! k \<noteq> cacheSizes c ! k \<longrightarrow>
            (\<exists>i \<in> {0, 1, 2, 3}. level_probe pr i = Inr k \<and> size_probe pr i = Inr (cacheSizes c1 ! k)))
    \<and> (\<forall>k. cacheSharing c1 ! k \<noteq> cacheSharing c ! k \<longrightarrow>
            (\<exists>i \<in> {0, 1, 2, 3}. level_probe pr i = Inr k \<and> shared_probe pr i = Inr (cacheSharing c1 ! k)))
    \<and> (cpuThreads c1 \<noteq> cpuThreads c \<longrightarrow> online_probe pr = Inr (cpuThreads c1))
    \<and> (threadsPerCore c1 \<noteq> threadsPerCore c \<longrightarrow>
           siblings_probe pr = Inr (threadsPerCore c1) \<and> (\<exists>t. online_probe pr = Inr t))
    \<and> (cpuCores c1 \<noteq> cpuCores c \<longrightarrow>
           (\<exists>t s. online_probe pr = Inr t \<and> siblings_probe pr = Inr s \<and> cpuCores c1 = t div s))
    \<and> (\<forall>m. online_probe pr = Inl m \<longrightarrow>
           x = Some (std_exception m) \<and> cpuCores c1 = cpuCores c \<and> cpuThreads c1 = cpuThreads c
           \<and> threadsPerCore c1 = threadsPerCore c \<and> cacheSizes c1 = cacheSizes c
           \<and> cacheSharing c1 = cacheSharing c)"
  proof cases
    case a
    with assms have "x = Some (std_exception m)" "c1 = c\<lparr>cpuName := name_probe pr\<rparr>"
      by (simp_all add: init_def Let_def)
    with a show ?thesis by simp
  next
    case b
    with assms have "c1 = c\<lparr>cpuName := name_probe pr, cpuThreads := t\<rparr>"
      by (simp add: init_def Let_def)
    with b show ?thesis by simp
  next
    case c
    define c3 where "c3 = c\<lparr>cpuName := name_probe pr, cpuThreads := t, threadsPerCore := s\<rparr>"
    define c4 where "c4 = (if hasCpuThreads c3 \<and> hasThreadsPerCore c3
                               then c3\<lparr>cpuCores := cpuThreads c3 div threadsPerCore c3\<rparr>
                               else c3)"
    have "init pr c = cache_loop pr [0, 1, 2, 3] c4"
      unfolding init_def Let_def c(1) c(2) c4_def c3_def by (simp only: sum.case)
    with assms have l: "cache_loop pr [0, 1, 2, 3] c4 = (x, c1)" by simp
    note k = cache_loop_keeps [OF l]
    have f4: "error c4 = error c" "cacheSizes c4 = cacheSizes c" "cacheSharing c4 = cacheSharing c"
      "cpuThreads c4 = t" "threadsPerCore c4 = s" "cpuCores c4 = cpuCores c \<or> cpuCores c4 = t div s"
      by (auto simp: c4_def c3_def)
    from k f4 c show ?thesis by auto
  qed
  then show "error c1 = error c"
    and "length (cacheSizes c1) = length (cacheSizes c)"
    and "length (cacheSharing c1) = length (cacheSharing c)"
    and "\<forall>k. cacheSizes c1 ! k \<noteq> cacheSizes c ! k \<longrightarrow>
            (\<exists>i \<in> {0, 1, 2, 3}. level_probe pr i = Inr k \<and> size_probe pr i = Inr (cacheSizes c1 ! k))"
    and "\<forall>k. cacheSharing c1 ! k \<noteq> cacheSharing c ! k \<longrightarrow>
            (\<exists>i \<in> {0, 1, 2, 3}. level_probe pr i = Inr k \<and> shared_probe pr i = Inr (cacheSharing c1 ! k))"
    and "cpuThreads c1 \<noteq> cpuThreads c \<longrightarrow> online_probe pr = Inr (cpuThreads c1)"
    and "threadsPerCore c1 \<noteq> threadsPerCore c \<longrightarrow>
           siblings_probe pr = Inr (threadsPerCore c1) \<and> (\<exists>t. online_probe pr = Inr t)"
    and "cpuCores c1 \<noteq> cpuCores c \<longrightarrow>
           (\<exists>t s. online_probe pr = Inr t \<and> siblings_probe pr = Inr s \<and> cpuCores c1 = t div s)"
    and "\<forall>m. online_probe pr = Inl m \<longrightarrow>
           x = Some (std_exception m) \<and> cpuCores c1 = cpuCores c \<and> cpuThreads c1 = cpuThreads c
           \<and> threadsPerCore c1 = threadsPerCore c \<and> cacheSizes c1 = cacheSizes c
           \<and> cacheSharing c1 = cacheSharing c"
    by blast+
qed

lemma init_zero_fields:
  assumes "init pr CpuInfo_zero = (x, c1)"
  shows "fields_probed_or_zero pr c1"
proof -
  note k = init_keeps [OF assms]
  have z: "error CpuInfo_zero = []" "cacheSizes CpuInfo_zero = [0, 0, 0, 0]"
    "cacheSharing CpuInfo_zero = [0, 0, 0, 0]" "cpuCores CpuInfo_zero = 0"
    "cpuThreads CpuInfo_zero = 0" "threadsPerCore CpuInfo_zero = 0"
    by (simp_all add: CpuInfo_zero_def)
  have z4: "[0, 0, 0, 0 :: nat] ! k = 0" if "k < 4" for k
    using that by (simp add: nth_Cons split: nat.splits)
  have a: "length (cacheSizes c1) = 4" using k(2) by (simp add: z)
  have b: "length (cacheSharing c1) = 4" using k(3) by (simp add: z)
  have c: "\<forall>k < 4. cacheSizes c1 ! k \<noteq> 0 \<longrightarrow>
          (\<exists>i \<in> {0, 1, 2, 3}. level_probe pr i = Inr k \<and> size_probe pr i = Inr (cacheSizes c1 ! k))"
  proof (intro allI impI)
    fix k :: nat assume "k < 4" and "cacheSizes c1 ! k \<noteq> 0"
    then have "cacheSizes c1 ! k \<noteq> cacheSizes CpuInfo_zero ! k" by (simp add: z z4)
    with k(4) show "\<exists>i \<in> {0, 1, 2, 3}. level_probe pr i = Inr k \<and> size_probe pr i = Inr (cacheSizes c1 ! k)"
      by blast
  qed
  have d: "\<forall>k < 4. cacheSharing c1 ! k \<noteq> 0 \<longrightarrow>
          (\<exists>i \<in> {0, 1, 2, 3}. level_probe pr i = Inr k \<and> shared_probe pr i = Inr (cacheSharing c1 ! k))"
  proof (intro allI impI)
    fix k :: nat assume "k < 4" and "cacheSharing c1 ! k \<noteq> 0"
    then have "cacheSharing c1 ! k \<noteq> cacheSharing CpuInfo_zero ! k" by (simp add: z z4)
    with k(5) show "\<exists>i \<in> {0, 1, 2, 3}. level_probe pr i = Inr k \<and> shared_probe pr i = Inr (cacheSharing c1 ! k)"
      by blast
  qed
  have e: "cpuThreads c1 \<noteq> 0 \<longrightarrow> online_probe pr = Inr (cpuThreads c1)"
    using k(6) by (simp add: z)
  have f: "threadsPerCore c1 \<noteq> 0 \<longrightarrow>
          siblings_probe pr = Inr (threadsPerCore c1) \<and> (\<exists>t. online_probe pr = Inr t)"
    using k(7) by (simp add: z)
  have g: "cpuCores c1 \<noteq> 0 \<longrightarrow>
          (\<exists>t s. online_probe pr = Inr t \<and> siblings_probe pr = Inr s \<and> cpuCores c1 = t div s)"
    using k(8) by (simp add: z)
  from a b c d e f g show ?thesis unfolding fields_probed_or_zero_def by (intro conjI)
qed

lemma fields_probed_or_zero_error [simp]:
  "fields_probed_or_zero pr (c\<lparr>error := m\<rparr>) = fields_probed_or_zero pr c"
  by (simp add: fields_probed_or_zero_def)

text \<open>
  C8. The constructor of CpuInfo returns an object for every outcome of the probes: no
  exception leaves it. If \<^verbatim>\<open>init()\<close> threw, \<^verbatim>\<open>getError()\<close> returns the text of the
  exception, else the empty string. Every numeric member is zero unless a completed
  probe wrote it; in particular, if the first probe throws, all of them are zero.
\<close>

theorem CpuInfo_new_never_throws:
  "\<exists>c. CpuInfo_new pr = Inr c
     \<and> (\<forall>m. fst (init pr CpuInfo_zero) = Some (std_exception m) \<longrightarrow> getError c = m)
     \<and> (fst (init pr CpuInfo_zero) = None \<longrightarrow> getError c = [])
     \<and> fields_probed_or_zero pr c
     \<and> (\<forall>m. online_probe pr = Inl m \<longrightarrow>
          getError c = m \<and> cpuCores c = 0 \<and> cpuThreads c = 0 \<and> threadsPerCore c = 0
          \<and> cacheSizes c = [0, 0, 0, 0] \<and> cacheSharing c = [0, 0, 0, 0])"
proof -
  obtain x c1 where i: "init pr CpuInfo_zero = (x, c1)"
    by (cases "init pr CpuInfo_zero") auto
  note k = init_keeps [OF i]
  note fz = init_zero_fields [OF i]
  have z: "error CpuInfo_zero = []" "cacheSizes CpuInfo_zero = [0, 0, 0, 0]"
    "cacheSharing CpuInfo_zero = [0, 0, 0, 0]" "cpuCores CpuInfo_zero = 0"
    "cpuThreads CpuInfo_zero = 0" "threadsPerCore CpuInfo_zero = 0"
    by (simp_all add: CpuInfo_zero_def)
  from k(1) have e1: "error c1 = []" by (simp add: z)
  from k(9) have first: "\<And>m. online_probe pr = Inl m \<Longrightarrow>
      x = Some (std_exception m) \<and> cpuCores c1 = 0 \<and> cpuThreads c1 = 0 \<and> threadsPerCore c1 = 0
      \<and> cacheSizes c1 = [0, 0, 0, 0] \<and> cacheSharing c1 = [0, 0, 0, 0]"
    unfolding z by blast
  have sx: "x = None \<or> (\<exists>m. x = Some (std_exception m))"
    using init_std [of pr CpuInfo_zero _ c1] i
    by (cases x) auto
  then show ?thesis
  proof
    assume n: "x = None"
    then have new: "CpuInfo_new pr = Inr c1" by (simp add: CpuInfo_new_def i)
    have "(\<forall>m. fst (init pr CpuInfo_zero) = Some (std_exception m) \<longrightarrow> getError c1 = m)"
      by (simp add: i n)
    moreover have "fst (init pr CpuInfo_zero) = None \<longrightarrow> getError c1 = []"
      by (simp add: getError_def e1)
    moreover have "\<forall>m. online_probe pr = Inl m \<longrightarrow>
          getError c1 = m \<and> cpuCores c1 = 0 \<and> cpuThreads c1 = 0 \<and> threadsPerCore c1 = 0
          \<and> cacheSizes c1 = [0, 0, 0, 0] \<and> cacheSharing c1 = [0, 0, 0, 0]"
      using first n by auto
    ultimately show ?thesis using new fz
      by - (rule exI [of _ c1], intro conjI, assumption+)
  next
    assume "\<exists>m. x = Some (std_exception m)"
    then obtain m where m: "x = Some (std_exception m)" ..
    define c where "c = c1\<lparr>error := m\<rparr>"
    from m have new: "CpuInfo_new pr = Inr c" by (simp add: CpuInfo_new_def i c_def)
    have "(\<forall>m. fst (init pr CpuInfo_zero) = Some (std_exception m) \<longrightarrow> getError c = m)"
      by (simp add: i m c_def getError_def)
    moreover have "fst (init pr CpuInfo_zero) = None \<longrightarrow> getError c = []"
      by (simp add: i m)
    moreover have "\<forall>m. online_probe pr = Inl m \<longrightarrow>
          getError c = m \<and> cpuCores c = 0 \<and> cpuThreads c = 0 \<and> threadsPerCore c = 0
          \<and> cacheSizes c = [0, 0, 0, 0] \<and> cacheSharing c = [0, 0, 0, 0]"
      using first m by (auto simp: c_def getError_def)
    moreover have "fields_probed_or_zero pr c" using fz by (simp add: c_def)
    ultimately show ?thesis using new
      by - (rule exI [of _ c], intro conjI, assumption+)
  qed
qed

section \<open>Instances\<close>

lemma range_limit_numeral: "range_limit = 18446744030759878665"
  by (simp add: range_limit_def UINT64_MAX_def UINT32_MAX_def)

text \<open>
  C10, instance: the interval from 0 to 11.
\<close>

theorem generatePrimes_small_callbacks_witness:
  "CALLBACK_PRIMES example_flags \<noteq> 0 \<and> (0 :: 64 word) \<le> 3 \<and> (5 :: 64 word) \<le> 11
   \<and> (11 :: 64 word) < range_limit
   \<and> (\<exists>ps' rest. generatePrimes example_flags example_engine 0 11 False example_sieve = Inr ps'
          \<and> callback_args ps' =
               [2, 3, 5, 18446744073709551608, 18446744073709551608, 18446744073709551608] @ rest)"
proof -
  have h1: "CALLBACK_PRIMES example_flags \<noteq> 0" by (simp add: example_flags_def)
  have h2: "(0 :: 64 word) \<le> 3" by simp
  have h3: "(5 :: 64 word) \<le> 11" by simp
  have h4: "(11 :: 64 word) < range_limit" by (simp add: range_limit_numeral)
  have e: "callback_args example_sieve = []" by (simp add: example_sieve_def)
  have v: "first_char_minus_0 ''(3, 5)'' = 18446744073709551608"
    "first_char_minus_0 ''(5, 7)'' = 18446744073709551608"
    "first_char_minus_0 ''(5, 7, 11)'' = 18446744073709551608"
    by (simp_all add: first_char_minus_0_def)
  from generatePrimes_small_callbacks [OF h1 h2 h3 h4, of example_engine example_sieve]
  obtain ps' rest where
    "generatePrimes example_flags example_engine 0 11 False example_sieve = Inr ps'"
    "callback_args ps' =
         callback_args example_sieve @ (if (0 :: 64 word) \<le> 2 then [2] else [])
           @ [3, 5, first_char_minus_0 ''(3, 5)'']
           @ (if (7 :: 64 word) \<le> 11 then [first_char_minus_0 ''(5, 7)''] else [])
           @ (if (11 :: 64 word) \<le> 11 then [first_char_minus_0 ''(5, 7, 11)''] else [])
           @ (if (13 :: 64 word) \<le> 11 then [first_char_minus_0 ''(5, 7, 11, 13)''] else [])
           @ (if (17 :: 64 word) \<le> 11 then [first_char_minus_0 ''(5, 7, 11, 13, 17)''] else [])
           @ rest"
    by blast
  then have "generatePrimes example_flags example_engine 0 11 False example_sieve = Inr ps'
      \<and> callback_args ps' =
               [2, 3, 5, 18446744073709551608, 18446744073709551608, 18446744073709551608] @ rest"
    unfolding e v by simp
  with h1 h2 h3 h4 show ?thesis by blast
qed

text \<open>
  C8, instance: the second probe throws; the thread count of the first probe is kept,
  everything else is zero, and the text of the exception is stored.
\<close>

theorem CpuInfo_new_never_throws_witness:
  "CpuInfo_new example_probes =
     Inr \<lparr>cpuName = ''cpu'', cpuCores = 0, cpuThreads = 8, threadsPerCore = 0,
          cacheSizes = [0, 0, 0, 0], cacheSharing = [0, 0, 0, 0], error = ''stoul''\<rparr>
   \<and> fst (init example_probes CpuInfo_zero) = Some (std_exception ''stoul'')
   \<and> fields_probed_or_zero example_probes
       \<lparr>cpuName = ''cpu'', cpuCores = 0, cpuThreads = 8, threadsPerCore = 0,
        cacheSizes = [0, 0, 0, 0], cacheSharing = [0, 0, 0, 0], error = ''stoul''\<rparr>"
proof -
  have n: "CpuInfo_new example_probes =
     Inr \<lparr>cpuName = ''cpu'', cpuCores = 0, cpuThreads = 8, threadsPerCore = 0,
          cacheSizes = [0, 0, 0, 0], cacheSharing = [0, 0, 0, 0], error = ''stoul''\<rparr>"
    by (simp add: CpuInfo_new_def init_def example_probes_def CpuInfo_zero_def)
  have i: "fst (init example_probes CpuInfo_zero) = Some (std_exception ''stoul'')"
    by (simp add: init_def example_probes_def CpuInfo_zero_def)
  from CpuInfo_new_never_throws [of example_probes] n i show ?thesis by auto
qed

end
